theory Spec2Isabelle
  imports Complex_Main
begin

section \<open>Data model of the convex-hull core (isl\_convex\_hull.c)\<close>

text \<open>
  The functions of the source are embedded as functions on values. A pointer that may be
  null is an \<open>option\<close>, and \<open>None\<close> is the null result that the source returns on
  its error paths. Memory is not modelled: reference counts, copy-on-write and the
  freeing of owned objects are invisible, and the allocation of a matrix, a vector or a
  polyhedron does not fail, so the branches that only test the result of such an
  allocation are left out. The collaborators whose code is not part of the core (the LP
  solver, the matrix operations, simplification, the simplex tableau) are parameters of
  the functions that call them.

  A constraint row is a vector of arbitrary-precision integers (\<open>isl_int *\<close>): the
  constant term first, the coefficients of the variables after it.
\<close>

type_synonym row = "int list"

text \<open>The flags of a basic map that the core tests, sets or clears.\<close>

datatype flag = EMPTY | RATIONAL | NO_REDUNDANT | NO_IMPLICIT

text \<open>
  \<open>struct isl_basic_map\<close> (and \<open>struct isl_basic_set\<close>, which the source casts to
  it): the number of variables, the equalities \<open>eq[0..n_eq)\<close>, the inequalities
  \<open>ineq[0..n_ineq)\<close>, the flags, and the number of constraint rows that were
  allocated (\<open>alloc_inequality\<close> fails when they are used up).
\<close>

record basic_map =
  n_total :: nat
  eq :: "row list"
  ineq :: "row list"
  flags :: "flag set"
  c_size :: nat

text \<open>A set (or map) is the ordered collection \<open>p[0..n)\<close> of its basic sets.\<close>

type_synonym uset = "basic_map list"

text \<open>A matrix is the list of its rows.\<close>

type_synonym mat = "row list"

subsection \<open>Integer vector operations (isl\_seq.h)\<close>

text \<open>
  Modelled from the spec: the big-integer vector operations of section 6 (copy, clear,
  negate, scale, linear combination, equality test), which the source calls on the first
  \<open>len\<close> entries of a row. A destination row is the \<open>len\<close> entries written.
\<close>

definition isl_seq_cpy :: "row \<Rightarrow> nat \<Rightarrow> row" where
  "isl_seq_cpy src len = take len src"

definition isl_seq_neg :: "row \<Rightarrow> nat \<Rightarrow> row" where
  "isl_seq_neg src len = map uminus (take len src)"

definition isl_seq_clr :: "nat \<Rightarrow> row" where
  "isl_seq_clr len = replicate len 0"

definition isl_seq_scale :: "row \<Rightarrow> int \<Rightarrow> nat \<Rightarrow> row" where
  "isl_seq_scale src m len = map (\<lambda>a. a * m) (take len src) @ drop len src"

definition isl_seq_combine :: "int \<Rightarrow> row \<Rightarrow> int \<Rightarrow> row \<Rightarrow> nat \<Rightarrow> row" where
  "isl_seq_combine m1 src1 m2 src2 len =
     map2 (\<lambda>a b. m1 * a + m2 * b) (take len src1) (take len src2)"

definition isl_seq_eq :: "row \<Rightarrow> row \<Rightarrow> nat \<Rightarrow> bool" where
  "isl_seq_eq p1 p2 len \<longleftrightarrow> take len p1 = take len p2"

subsection \<open>The LP primitive (isl\_lp.h)\<close>

text \<open>
  \<open>enum isl_lp_result\<close>; on \<open>isl_lp_ok\<close> the solver has written the optimum as the
  pair numerator, denominator.
\<close>

datatype lp_result = isl_lp_ok int int | isl_lp_unbounded | isl_lp_empty | isl_lp_error

text \<open>
  \<open>isl_solve_lp(bmap, 0, f, ctx->one, opt, opt_denom)\<close> is not part of the core: it is
  a parameter of every function that calls it. Its arguments are the polyhedron, the
  objective \<open>f\<close> (one coefficient per variable) and whether the caller passed a
  denominator (\<open>opt_denom\<close> is not \<open>NULL\<close>).
\<close>

type_synonym lp_solver = "basic_map \<Rightarrow> row \<Rightarrow> bool \<Rightarrow> lp_result"

text \<open>
  Modelled from the spec: \<open>isl_basic_map_set_to_empty\<close> (and
  \<open>isl_basic_set_set_to_empty\<close>, the same function on a basic set) marks the
  polyhedron empty (section 7, empty detection).
\<close>

definition isl_basic_map_set_to_empty :: "basic_map \<Rightarrow> basic_map option" where
  "isl_basic_map_set_to_empty bmap = Some (bmap\<lparr>flags := insert EMPTY (flags bmap)\<rparr>)"

subsection \<open>Rational points of a polyhedron\<close>

text \<open>The value \<open>b \<cdot> x\<close> of a coefficient vector at a rational point.\<close>

definition dotp :: "row \<Rightarrow> rat list \<Rightarrow> rat" where
  "dotp b x = sum_list (map2 (\<lambda>a v. of_int a * v) b x)"

text \<open>The value \<open>c\<^sub>0 + c[1..] \<cdot> x\<close> of a constraint row at a point.\<close>

definition row_val :: "row \<Rightarrow> rat list \<Rightarrow> rat" where
  "row_val c x = of_int (hd c) + dotp (tl c) x"

definition satisfies :: "basic_map \<Rightarrow> rat list \<Rightarrow> bool" where
  "satisfies bmap x \<longleftrightarrow>
     length x = n_total bmap \<and> list_all (\<lambda>r. row_val r x = 0) (eq bmap)
       \<and> list_all (\<lambda>r. 0 \<le> row_val r x) (ineq bmap)"

text \<open>The polyhedron lies in the halfspace \<open>c \<ge> 0\<close>.\<close>

definition contained_in_halfspace :: "basic_map \<Rightarrow> row \<Rightarrow> bool" where
  "contained_in_halfspace bmap c \<longleftrightarrow> (\<forall>x. satisfies bmap x \<longrightarrow> 0 \<le> row_val c x)"

text \<open>
  The contract of the LP primitive (section 4.1) on one polyhedron: for every objective
  with one coefficient per variable, \<open>ok\<close> carries the exact rational minimum with a
  positive denominator, \<open>unbounded\<close> and \<open>empty\<close> say what they mean. The solver may
  report an error at any time.
\<close>

definition lp_exact :: "lp_solver \<Rightarrow> basic_map \<Rightarrow> bool" where
  "lp_exact lp bmap \<longleftrightarrow>
     (\<forall>f. length f = n_total bmap \<longrightarrow>
        (case lp bmap f True of
           isl_lp_ok n d \<Rightarrow>
             0 < d \<and> (\<exists>x. satisfies bmap x \<and> dotp f x = of_int n / of_int d)
               \<and> (\<forall>x. satisfies bmap x \<longrightarrow> of_int n / of_int d \<le> dotp f x)
         | isl_lp_unbounded \<Rightarrow> (\<forall>m. \<exists>x. satisfies bmap x \<and> dotp f x < m)
         | isl_lp_empty \<Rightarrow> (\<forall>x. \<not> satisfies bmap x)
         | isl_lp_error \<Rightarrow> True))"

section \<open>Redundancy of a single inequality\<close>

text \<open>
  The inner loop of the sign filter: \<open>for (j = 0; j < n_ineq; ++j) if (sign ==
  isl_int_sgn(ineq[j][1+i])) break;\<close> followed by the test \<open>j == n_ineq\<close>. The result
  is whether the loop left early.
\<close>

primrec ineq_with_sign :: "int \<Rightarrow> nat \<Rightarrow> row list \<Rightarrow> bool" where
  "ineq_with_sign s i [] = False"
| "ineq_with_sign s i (r # rs) = (if s = sgn (r ! (1 + i)) then True else ineq_with_sign s i rs)"

text \<open>
  The outer loop \<open>for (i = 0; i < total; ++i)\<close>: the value of \<open>i\<close> when the loop is
  left, \<open>total\<close> when it ran to its end.
\<close>

function sign_filter :: "basic_map \<Rightarrow> row \<Rightarrow> nat \<Rightarrow> nat" where
  "sign_filter bmap c i =
     (if i < n_total bmap then
        (if c ! (1 + i) = 0 then sign_filter bmap c (i + 1)
         else if ineq_with_sign (sgn (c ! (1 + i))) i (ineq bmap)
           then sign_filter bmap c (i + 1)
           else i)
      else i)"
  by pat_completeness auto
termination
  by (relation "measure (\<lambda>(bmap, c, i). n_total bmap - i)") auto

declare sign_filter.simps [simp del]

text \<open>
  What the call leaves behind: the return value, the basic map behind the pointer, the
  value written to \<open>*opt_n\<close> (if any), and how many LPs were solved.
\<close>

record redundant_result =
  ret :: int
  bmap_out :: "basic_map option"
  opt_n_out :: "int option"
  lp_calls :: nat

text \<open>
  \<open>isl_basic_map_constraint_is_redundant(bmap, c, opt_n, opt_d)\<close>. The basic map is
  \<open>None\<close> for a null pointer; \<open>has_opt_d\<close> says that \<open>opt_d\<close> is not \<open>NULL\<close>.
\<close>

definition isl_basic_map_constraint_is_redundant ::
  "lp_solver \<Rightarrow> basic_map option \<Rightarrow> row \<Rightarrow> bool \<Rightarrow> redundant_result" where
  "isl_basic_map_constraint_is_redundant lp bmap c has_opt_d =
     (case bmap of
        None \<Rightarrow> \<lparr>ret = -1, bmap_out = None, opt_n_out = None, lp_calls = 0\<rparr>
      | Some b \<Rightarrow>
          if sign_filter b c 0 < n_total b
          then \<lparr>ret = 0, bmap_out = Some b, opt_n_out = None, lp_calls = 0\<rparr>
          else
            (case lp b (tl c) has_opt_d of
               isl_lp_unbounded \<Rightarrow> \<lparr>ret = 0, bmap_out = Some b, opt_n_out = None, lp_calls = 1\<rparr>
             | isl_lp_error \<Rightarrow> \<lparr>ret = -1, bmap_out = Some b, opt_n_out = None, lp_calls = 1\<rparr>
             | isl_lp_empty \<Rightarrow>
                 \<lparr>ret = 0, bmap_out = isl_basic_map_set_to_empty b, opt_n_out = None,
                  lp_calls = 1\<rparr>
             | isl_lp_ok n d \<Rightarrow>
                 (let opt_n = (if has_opt_d then n + d * hd c else n + hd c)
                  in \<lparr>ret = (if opt_n < 0 then 0 else 1), bmap_out = Some b,
                      opt_n_out = Some opt_n, lp_calls = 1\<rparr>)))"

text \<open>
  A one-dimensional example: the point \<open>x = 0\<close> given by an equality, and the constraint
  \<open>x \<ge> 0\<close>. The solver answers with the true optimum \<open>0/1\<close> of every objective.
\<close>

definition origin_1d :: basic_map where
  "origin_1d = \<lparr>n_total = 1, eq = [[0, 1]], ineq = [], flags = {}, c_size = 1\<rparr>"

definition lp_origin :: lp_solver where
  "lp_origin bmap f has_opt_d = isl_lp_ok 0 1"

text \<open>
  The one-dimensional halfline \<open>q x \<ge> p\<close>, and a solver for such halflines: the
  minimum of \<open>a x\<close> is \<open>a p / q\<close> for \<open>a \<ge> 0\<close>, and there is none otherwise.
\<close>

definition halfline :: "int \<Rightarrow> int \<Rightarrow> basic_map" where
  "halfline p q = \<lparr>n_total = 1, eq = [], ineq = [[- p, q]], flags = {}, c_size = 1\<rparr>"

definition lp_halfline :: lp_solver where
  "lp_halfline bmap f has_opt_d =
     (case ineq bmap of
        [[c0, q]] \<Rightarrow> if 0 \<le> hd f then isl_lp_ok (hd f * (- c0)) q else isl_lp_unbounded
      | _ \<Rightarrow> isl_lp_error)"

section \<open>Bound test\<close>

text \<open>How the loop over the basic sets of a set was left.\<close>

datatype loop_exit = Completed | Left_early | Failed

text \<open>
  The loop \<open>for (j = 0; j < set->n; ++j)\<close> of \<open>uset_is_bound\<close> on the basic sets
  that are still to be visited, with the row \<open>c\<close> and the flag \<open>first\<close> as they
  stand. It returns how the loop was left (\<open>break\<close> on an unbounded LP, \<open>goto error\<close>),
  the basic sets as the loop leaves them, and the row.
\<close>

fun bound_loop :: "lp_solver \<Rightarrow> nat \<Rightarrow> uset \<Rightarrow> row \<Rightarrow> bool \<Rightarrow> loop_exit \<times> uset \<times> row" where
  "bound_loop lp len [] c first = (Completed, [], c)"
| "bound_loop lp len (p # ps) c first =
     (if EMPTY \<in> flags p then
        (case bound_loop lp len ps c first of (e, ps', c') \<Rightarrow> (e, p # ps', c'))
      else
        (case lp p (tl c) True of
           isl_lp_unbounded \<Rightarrow> (Left_early, p # ps, c)
         | isl_lp_error \<Rightarrow> (Failed, p # ps, c)
         | isl_lp_empty \<Rightarrow>
             (case isl_basic_map_set_to_empty p of
                None \<Rightarrow> (Failed, p # ps, c)
              | Some p' \<Rightarrow>
                  (case bound_loop lp len ps c first of (e, ps', c') \<Rightarrow> (e, p' # ps', c')))
         | isl_lp_ok opt opt_denom \<Rightarrow>
             (let c1 = (if opt_denom \<noteq> 1 then isl_seq_scale c opt_denom len else c);
                  c2 = (if first \<or> opt < hd c1 then c1[0 := opt] else c1)
              in (case bound_loop lp len ps c2 False of (e, ps', c') \<Rightarrow> (e, p # ps', c')))))"

text \<open>
  \<open>uset_is_bound(ctx, set, c, len)\<close>: the return value, the set and the row \<open>c\<close> as
  the call leaves them. The constant is negated on both ways out of the loop but not on
  the error path.
\<close>

definition uset_is_bound :: "lp_solver \<Rightarrow> uset \<Rightarrow> row \<Rightarrow> nat \<Rightarrow> int \<times> uset \<times> row" where
  "uset_is_bound lp s c len =
     (case bound_loop lp len s c True of
        (Failed, s', c') \<Rightarrow> (-1, s', c')
      | (Left_early, s', c') \<Rightarrow> (0, s', c'[0 := - hd c'])
      | (Completed, s', c') \<Rightarrow> (1, s', c'[0 := - hd c']))"

text \<open>
  The points of a member of a set: a basic set flagged \<open>EMPTY\<close> has none. The points
  of the set are those of its members.
\<close>

definition in_member :: "basic_map \<Rightarrow> rat list \<Rightarrow> bool" where
  "in_member p x \<longleftrightarrow> EMPTY \<notin> flags p \<and> satisfies p x"

definition in_uset :: "uset \<Rightarrow> rat list \<Rightarrow> bool" where
  "in_uset s x \<longleftrightarrow> list_ex (\<lambda>p. in_member p x) s"

text \<open>The objective \<open>f \<cdot> x\<close> is bounded below on a member.\<close>

definition bounded_below :: "row \<Rightarrow> basic_map \<Rightarrow> bool" where
  "bounded_below f p \<longleftrightarrow> (\<exists>m. \<forall>x. in_member p x \<longrightarrow> m \<le> dotp f x)"

text \<open>A member that has no point and is not yet flagged gets the flag.\<close>

definition mark_empty :: "basic_map \<Rightarrow> basic_map" where
  "mark_empty p =
     (if EMPTY \<notin> flags p \<and> (\<forall>x. \<not> satisfies p x)
      then p\<lparr>flags := insert EMPTY (flags p)\<rparr> else p)"

section \<open>The one-dimensional hull\<close>

text \<open>
  \<open>isl_basic_set_set_rational\<close> (a null pointer is \<open>None\<close>). Copy-on-write is
  invisible in a model of values; \<open>isl_basic_set_finalize\<close> is a parameter.
\<close>

definition isl_basic_set_set_rational ::
  "(basic_map \<Rightarrow> basic_map option) \<Rightarrow> basic_map option \<Rightarrow> basic_map option" where
  "isl_basic_set_set_rational finalize bset =
     (case bset of
        None \<Rightarrow> None
      | Some b \<Rightarrow>
          if RATIONAL \<in> flags b then Some b
          else finalize (b\<lparr>flags := insert RATIONAL (flags b)\<rparr>))"

text \<open>
  Modelled from the spec: \<open>isl_set_remove_empty_parts\<close> drops the members that are
  flagged empty (section 3: empty members are logically ignored).
\<close>

definition isl_set_remove_empty_parts :: "uset \<Rightarrow> uset" where
  "isl_set_remove_empty_parts s = filter (\<lambda>p. EMPTY \<notin> flags p) s"

text \<open>
  The state of \<open>convex_hull_1d\<close>: the pointers \<open>lower\<close> and \<open>upper\<close> (\<open>None\<close> for
  \<open>NULL\<close>, otherwise the two entries of the row of \<open>c\<close> they point to), and the flags
  \<open>has_lower\<close> and \<open>has_upper\<close> of the member being visited.
\<close>

record bounds =
  lower :: "row option"
  upper :: "row option"
  has_lower :: bool
  has_upper :: bool

text \<open>The first loop over \<open>set->p[0]->ineq\<close>, when the first member has no equality.\<close>

definition seed_ineq :: "bounds \<Rightarrow> row \<Rightarrow> bounds" where
  "seed_ineq st r =
     (if 0 < r ! 1 then st\<lparr>lower := Some (isl_seq_cpy r 2)\<rparr>
      else st\<lparr>upper := Some (isl_seq_cpy r 2)\<rparr>)"

text \<open>
  The bounds taken from the first member; \<open>None\<close> when the assertion \<open>n_eq == 1\<close>
  fails.
\<close>

definition seed_bounds :: "basic_map \<Rightarrow> bounds option" where
  "seed_bounds p0 =
     (if 0 < length (eq p0) then
        (if length (eq p0) = 1 then
           (if 0 < (eq p0 ! 0) ! 1
            then Some \<lparr>lower = Some (isl_seq_cpy (eq p0 ! 0) 2),
                       upper = Some (isl_seq_neg (eq p0 ! 0) 2),
                       has_lower = False, has_upper = False\<rparr>
            else Some \<lparr>lower = Some (isl_seq_neg (eq p0 ! 0) 2),
                       upper = Some (isl_seq_cpy (eq p0 ! 0) 2),
                       has_lower = False, has_upper = False\<rparr>)
         else None)
      else Some (foldl seed_ineq
                   \<lparr>lower = None, upper = None, has_lower = False, has_upper = False\<rparr>
                   (ineq p0)))"

text \<open>The body of the loop over the equalities of a member.\<close>

definition merge_eq :: "bounds \<Rightarrow> row \<Rightarrow> bounds" where
  "merge_eq st e =
     (let st1 = st\<lparr>has_lower := True, has_upper := True\<rparr>;
          st2 = (case lower st1 of
                   None \<Rightarrow> st1
                 | Some lo \<Rightarrow>
                     (let a = lo ! 0 * e ! 1; b = lo ! 1 * e ! 0;
                          lo1 = (if a < b \<and> 0 < e ! 1 then isl_seq_cpy e 2 else lo);
                          lo2 = (if b < a \<and> e ! 1 < 0 then isl_seq_neg e 2 else lo1)
                      in st1\<lparr>lower := Some lo2\<rparr>))
      in (case upper st2 of
            None \<Rightarrow> st2
          | Some up \<Rightarrow>
              (let a = up ! 0 * e ! 1; b = up ! 1 * e ! 0;
                   up1 = (if a < b \<and> 0 < e ! 1 then isl_seq_neg e 2 else up);
                   up2 = (if b < a \<and> e ! 1 < 0 then isl_seq_cpy e 2 else up1)
               in st2\<lparr>upper := Some up2\<rparr>)))"

text \<open>The body of the loop over the inequalities of a member.\<close>

definition merge_ineq :: "bounds \<Rightarrow> row \<Rightarrow> bounds" where
  "merge_ineq st r =
     (let st1 = (if 0 < r ! 1 then st\<lparr>has_lower := True\<rparr> else st);
          st2 = (if r ! 1 < 0 then st1\<lparr>has_upper := True\<rparr> else st1);
          st3 = (case lower st2 of
                   Some lo \<Rightarrow>
                     if 0 < r ! 1 then
                       (let a = lo ! 0 * r ! 1; b = lo ! 1 * r ! 0
                        in if a < b then st2\<lparr>lower := Some (isl_seq_cpy r 2)\<rparr> else st2)
                     else st2
                 | None \<Rightarrow> st2)
      in (case upper st3 of
            Some up \<Rightarrow>
              if r ! 1 < 0 then
                (let a = up ! 0 * r ! 1; b = up ! 1 * r ! 0
                 in if b < a then st3\<lparr>upper := Some (isl_seq_cpy r 2)\<rparr> else st3)
              else st3
          | None \<Rightarrow> st3))"

text \<open>The body of the loop over the members of the set.\<close>

definition merge_member :: "bounds \<Rightarrow> basic_map \<Rightarrow> bounds" where
  "merge_member st bset =
     (let st0 = st\<lparr>has_lower := False, has_upper := False\<rparr>;
          st1 = foldl merge_eq st0 (eq bset);
          st2 = foldl merge_ineq st1 (ineq bset);
          st3 = (if \<not> has_lower st2 then st2\<lparr>lower := None\<rparr> else st2)
      in (if \<not> has_upper st3 then st3\<lparr>upper := None\<rparr> else st3))"

text \<open>The first loop: every member is simplified; a null result is an error.\<close>

primrec simplify_all :: "(basic_map \<Rightarrow> basic_map option) \<Rightarrow> uset \<Rightarrow> uset option" where
  "simplify_all simplify [] = Some []"
| "simplify_all simplify (p # ps) =
     (case simplify p of
        None \<Rightarrow> None
      | Some p' \<Rightarrow> (case simplify_all simplify ps of None \<Rightarrow> None | Some ps' \<Rightarrow> Some (p' # ps')))"

text \<open>The inequalities that the remaining bounds add to the hull.\<close>

definition add_bounds :: "basic_map \<Rightarrow> bounds \<Rightarrow> basic_map" where
  "add_bounds h st =
     (let h1 = (case lower st of
                     Some lo \<Rightarrow> h\<lparr>ineq := ineq h @ [isl_seq_cpy lo 2]\<rparr>
                   | None \<Rightarrow> h)
      in (case upper st of
            Some up \<Rightarrow> h1\<lparr>ineq := ineq h1 @ [isl_seq_cpy up 2]\<rparr>
          | None \<Rightarrow> h1))"

text \<open>
  \<open>convex_hull_1d(ctx, set)\<close>, with \<open>isl_basic_set_simplify\<close> and
  \<open>isl_basic_set_finalize\<close> as parameters. \<open>None\<close> is the null result.
\<close>

definition convex_hull_1d ::
  "(basic_map \<Rightarrow> basic_map option) \<Rightarrow> (basic_map \<Rightarrow> basic_map option) \<Rightarrow> uset
     \<Rightarrow> basic_map option" where
  "convex_hull_1d simplify finalize s =
     (case simplify_all simplify s of
        None \<Rightarrow> None
      | Some s1 \<Rightarrow>
          (let s2 = isl_set_remove_empty_parts s1 in
           if length s2 = 0 then None
           else
             (case seed_bounds (s2 ! 0) of
                None \<Rightarrow> None
              | Some st \<Rightarrow>
                  (case isl_basic_set_set_rational finalize
                          (Some \<lparr>n_total = 1, eq = [], ineq = [], flags = {}, c_size = 2\<rparr>) of
                     None \<Rightarrow> None
                   | Some h \<Rightarrow> finalize (add_bounds h (foldl merge_member st s2))))))"

text \<open>The bound \<open>- c\<^sub>0 / c\<^sub>1\<close> that a one-dimensional row puts on \<open>x\<close>.\<close>

definition bound_val :: "row \<Rightarrow> rat" where
  "bound_val r = - of_int (r ! 0) / of_int (r ! 1)"

text \<open>The rows of a member that bound \<open>x\<close> from below, and those that bound it from above.\<close>

definition lower_rows :: "basic_map \<Rightarrow> row list" where
  "lower_rows p = eq p @ filter (\<lambda>r. 0 < r ! 1) (ineq p)"

definition upper_rows :: "basic_map \<Rightarrow> row list" where
  "upper_rows p = eq p @ filter (\<lambda>r. r ! 1 < 0) (ineq p)"

text \<open>
  \<open>lo'\<close> is the least restrictive of the lower bound \<open>lo\<close> and the rows \<open>rs\<close>: it
  is a lower bound (positive coefficient), its value is below all of theirs, and it is
  \<open>lo\<close> itself or has the value of one of the rows. Dually for upper bounds.
\<close>

definition least_lower :: "row \<Rightarrow> row list \<Rightarrow> row \<Rightarrow> bool" where
  "least_lower lo rs lo' \<longleftrightarrow>
     0 < lo' ! 1 \<and> bound_val lo' \<le> bound_val lo
     \<and> list_all (\<lambda>r. bound_val lo' \<le> bound_val r) rs
     \<and> (lo' = lo \<or> list_ex (\<lambda>r. bound_val lo' = bound_val r) rs)"

definition greatest_upper :: "row \<Rightarrow> row list \<Rightarrow> row \<Rightarrow> bool" where
  "greatest_upper up rs up' \<longleftrightarrow>
     up' ! 1 < 0 \<and> bound_val up \<le> bound_val up'
     \<and> list_all (\<lambda>r. bound_val r \<le> bound_val up') rs
     \<and> (up' = up \<or> list_ex (\<lambda>r. bound_val up' = bound_val r) rs)"

text \<open>The intervals of the collinear scenario of section 8.\<close>

definition interval :: "int \<Rightarrow> int \<Rightarrow> basic_map" where
  "interval lo hi = \<lparr>n_total = 1, eq = [], ineq = [[- lo, 1], [hi, -1]], flags = {}, c_size = 2\<rparr>"


text \<open>The point \<open>x = v\<close>, given by one equality.\<close>

definition point_1d :: "int \<Rightarrow> basic_map" where
  "point_1d v = \<lparr>n_total = 1, eq = [[- v, 1]], ineq = [], flags = {}, c_size = 1\<rparr>"

text \<open>The running bounds \<open>1 \<le> x \<le> 3\<close>.\<close>

definition bounds_1_3 :: bounds where
  "bounds_1_3 = \<lparr>lower = Some [-1, 1], upper = Some [3, -1], has_lower = True, has_upper = True\<rparr>"

text \<open>
  The running bounds when the loop \<open>for (i = 0; i < set->n; ++i)\<close> over the members
  reaches member \<open>k\<close>, from the bounds \<open>st0\<close> taken from the first member.
\<close>

definition running_bounds :: "bounds \<Rightarrow> uset \<Rightarrow> nat \<Rightarrow> bounds" where
  "running_bounds st0 s k = foldl merge_member st0 (take k s)"

section \<open>Wrapping a facet around a ridge\<close>

text \<open>
  \<open>struct isl_set\<close> where its dimension matters: \<open>isl_set_n_dim(set)\<close> and the
  members \<open>set->p[0..n)\<close>.
\<close>

record isl_set =
  n_dim :: nat
  members :: uset

text \<open>
  The rows that \<open>wrap_constraints\<close> writes, for \<open>n\<close> basic sets of \<open>dim\<close> homogeneous
  coordinates each: the equality \<open>\<Sum>\<^sub>i x\<^sub>i\<^sub>,\<^sub>1 = 1\<close>, the inequality \<open>a\<^sub>i \<ge> 0\<close> of basic
  set \<open>i\<close>, and a constraint of basic set \<open>i\<close> moved to the block of its coordinates.
\<close>

definition wrap_sum_row :: "nat \<Rightarrow> nat \<Rightarrow> row" where
  "wrap_sum_row dm n = -1 # concat (replicate n ([0, 1] @ isl_seq_clr (dm - 2)))"

definition wrap_dilation_row :: "nat \<Rightarrow> nat \<Rightarrow> nat \<Rightarrow> row" where
  "wrap_dilation_row dm n i = (isl_seq_clr (1 + dm * n))[1 + dm * i := 1]"

definition wrap_block_row :: "nat \<Rightarrow> nat \<Rightarrow> nat \<Rightarrow> row \<Rightarrow> row" where
  "wrap_block_row dm n i r =
     isl_seq_clr (1 + dm * i) @ isl_seq_cpy r dm @ isl_seq_clr (dm * (n - i - 1))"

text \<open>
  \<open>wrap_constraints(ctx, set)\<close>; \<open>None\<close> is the null pointer. The equalities are
  allocated in the order sum row, equalities of basic set 0, of basic set 1, ...; the
  inequalities in the order \<open>a\<^sub>0 \<ge> 0\<close>, inequalities of basic set 0, \<open>a\<^sub>1 \<ge> 0\<close>, ...
\<close>

definition wrap_constraints :: "isl_set option \<Rightarrow> basic_map option" where
  "wrap_constraints s =
     (case s of
        None \<Rightarrow> None
      | Some st \<Rightarrow>
          (let dm = 1 + n_dim st;
               n = length (members st);
               n_eq = 1 + sum_list (map (\<lambda>b. length (eq b)) (members st));
               n_ineq = n + sum_list (map (\<lambda>b. length (ineq b)) (members st))
           in Some \<lparr>n_total = dm * n,
                    eq = wrap_sum_row dm n #
                         concat (map (\<lambda>i. map (wrap_block_row dm n i) (eq (members st ! i)))
                                   [0..<n]),
                    ineq = concat (map (\<lambda>i. wrap_dilation_row dm n i #
                                       map (wrap_block_row dm n i) (ineq (members st ! i)))
                                    [0..<n]),
                    flags = {},
                    c_size = n_eq + n_ineq\<rparr>))"

text \<open>The objective \<open>\<Sum>\<^sub>i x\<^sub>i\<^sub>,\<^sub>2\<close> that \<open>wrap_facet\<close> minimises.\<close>

definition wrap_objective :: "nat \<Rightarrow> nat \<Rightarrow> row" where
  "wrap_objective dm n = concat (replicate n (isl_seq_clr 2 @ [1] @ isl_seq_clr (dm - 3)))"

text \<open>
  The matrix \<open>T\<close> of \<open>wrap_facet\<close>, with the rows \<open>(1, 0, ..., 0)\<close>, \<open>facet\<close> and
  \<open>ridge\<close>; here \<open>dim = 1 + isl_set_n_dim(set)\<close>.
\<close>

definition wrap_matrix :: "isl_set \<Rightarrow> row \<Rightarrow> row \<Rightarrow> mat" where
  "wrap_matrix s facet ridge =
     [1 # isl_seq_clr (n_dim s), isl_seq_cpy facet (1 + n_dim s), isl_seq_cpy ridge (1 + n_dim s)]"

text \<open>
  \<open>wrap_facet(ctx, set, facet, ridge)\<close>. The matrix operations
  \<open>isl_mat_right_inverse\<close> and \<open>isl_set_preimage\<close> and the LP solver are parameters.
  The result is the row \<open>facet\<close> as the call leaves it, or \<open>None\<close> for the null
  pointer: the row is rewritten only when the LP result is \<open>isl_lp_ok\<close>, and the
  assertion \<open>res == isl_lp_ok || res == isl_lp_unbounded\<close> fails otherwise.
\<close>

definition wrap_facet ::
  "lp_solver \<Rightarrow> (mat \<Rightarrow> mat option) \<Rightarrow> (isl_set \<Rightarrow> mat option \<Rightarrow> isl_set option)
     \<Rightarrow> isl_set \<Rightarrow> row \<Rightarrow> row \<Rightarrow> row option" where
  "wrap_facet lp right_inverse preimage s facet ridge =
     (let dm = 1 + n_dim s;
          T = wrap_matrix s facet ridge
      in (case preimage s (right_inverse T) of
            None \<Rightarrow> None
          | Some s' \<Rightarrow>
              (case wrap_constraints (Some s') of
                 None \<Rightarrow> None
               | Some lpb \<Rightarrow>
                   (case lp lpb (wrap_objective dm (length (members s'))) True of
                      isl_lp_ok num den \<Rightarrow>
                        Some (isl_seq_combine (- num) facet den ridge dm @ drop dm facet)
                    | isl_lp_unbounded \<Rightarrow> Some facet
                    | isl_lp_empty \<Rightarrow> None
                    | isl_lp_error \<Rightarrow> None))))"

text \<open>
  The LP that \<open>wrap_facet\<close> solves and its objective, for the statements about its
  outcome.
\<close>

definition wrap_lp_result ::
  "lp_solver \<Rightarrow> isl_set \<Rightarrow> isl_set \<Rightarrow> lp_result" where
  "wrap_lp_result lp s s' =
     (case wrap_constraints (Some s') of
        None \<Rightarrow> isl_lp_error
      | Some lpb \<Rightarrow> lp lpb (wrap_objective (1 + n_dim s) (length (members s'))) True)"

text \<open>
  \<open>num/den\<close> is the exact minimum of the objective \<open>f\<close> over the polyhedron (the
  \<open>ok\<close> case of the contract of section 4.1).
\<close>

definition lp_optimum :: "basic_map \<Rightarrow> row \<Rightarrow> int \<Rightarrow> int \<Rightarrow> bool" where
  "lp_optimum bmap f n d \<longleftrightarrow>
     0 < d \<and> (\<exists>x. satisfies bmap x \<and> dotp f x = of_int n / of_int d)
       \<and> (\<forall>x. satisfies bmap x \<longrightarrow> of_int n / of_int d \<le> dotp f x)"

text \<open>
  Modelled from the spec: the preimage of a set under the affine map with matrix \<open>U\<close>
  (section 6, preimage(matrix)) has the constraint rows \<open>r U\<close>.
\<close>

definition row_times_mat :: "row \<Rightarrow> mat \<Rightarrow> row" where
  "row_times_mat r U =
     map (\<lambda>j. sum_list (map2 (\<lambda>a u. a * u ! j) r U)) [0..<length (hd U)]"

definition preimage_rows :: "isl_set \<Rightarrow> mat option \<Rightarrow> isl_set option" where
  "preimage_rows s U =
     (case U of
        None \<Rightarrow> None
      | Some u \<Rightarrow>
          Some (s\<lparr>members :=
                   map (\<lambda>b. b\<lparr>eq := map (\<lambda>r. row_times_mat r u) (eq b),
                                ineq := map (\<lambda>r. row_times_mat r u) (ineq b)\<rparr>)
                       (members s)\<rparr>))"

text \<open>
  Two examples in the plane. The triangle with corners \<open>(0,0)\<close>, \<open>(0,1)\<close>, \<open>(1,1)\<close>
  together with the point \<open>(0,0)\<close>: the facet \<open>x\<^sub>1 \<ge> 0\<close> and its ridge \<open>x\<^sub>2 \<ge> 0\<close> at the
  origin are already in the frame of \<open>wrap_facet\<close>, the matrix \<open>T\<close> is the identity and
  so is its right inverse; the minimum of \<open>x\<^sub>2\<close> at \<open>x\<^sub>1 = 1\<close> over the cone is \<open>1\<close>.
\<close>

definition origin_2d :: basic_map where
  "origin_2d = \<lparr>n_total = 2, eq = [[0, 1, 0], [0, 0, 1]], ineq = [], flags = {}, c_size = 2\<rparr>"

definition triangle_a :: basic_map where
  "triangle_a =
     \<lparr>n_total = 2, eq = [], ineq = [[0, 1, 0], [0, -1, 1], [1, 0, -1]], flags = {}, c_size = 3\<rparr>"

definition set_a :: isl_set where
  "set_a = \<lparr>n_dim = 2, members = [triangle_a, origin_2d]\<rparr>"

text \<open>
  The triangle with corners \<open>(0,0)\<close>, \<open>(1,-1)\<close>, \<open>(0,1)\<close> together with the point
  \<open>(0,0)\<close>: for the facet \<open>x\<^sub>1 + x\<^sub>2 \<ge> 0\<close> and the ridge \<open>x\<^sub>1 - x\<^sub>2 \<ge> 0\<close> the matrix \<open>T\<close>
  has the right inverse \<open>U\<close> with \<open>T U = 2 I\<close>; the minimum over the transformed cone is
  \<open>-1\<close>.
\<close>

definition triangle_b :: basic_map where
  "triangle_b =
     \<lparr>n_total = 2, eq = [], ineq = [[0, 1, 0], [0, 1, 1], [1, -2, -1]], flags = {}, c_size = 3\<rparr>"

definition set_b :: isl_set where
  "set_b = \<lparr>n_dim = 2, members = [triangle_b, origin_2d]\<rparr>"

definition right_inverse_ex :: "mat \<Rightarrow> mat option" where
  "right_inverse_ex T =
     (if T = [[1, 0, 0], [0, 1, 0], [0, 0, 1]] then Some [[1, 0, 0], [0, 1, 0], [0, 0, 1]]
      else if T = [[1, 0, 0], [0, 1, 1], [0, 1, -1]] then Some [[2, 0, 0], [0, 1, 1], [0, 1, -1]]
      else None)"

text \<open>A solver that answers \<open>ok\<close> with the given optimum.\<close>

definition lp_answer :: "int \<Rightarrow> int \<Rightarrow> lp_solver" where
  "lp_answer n d bmap f has_opt_d = isl_lp_ok n d"

text \<open>The LPs that \<open>wrap_constraints\<close> builds for the two examples.\<close>

definition wrap_lp_a :: basic_map where
  "wrap_lp_a =
     \<lparr>n_total = 6,
      eq = [[-1, 0, 1, 0, 0, 1, 0], [0, 0, 0, 0, 0, 1, 0], [0, 0, 0, 0, 0, 0, 1]],
      ineq = [[0, 1, 0, 0, 0, 0, 0], [0, 0, 1, 0, 0, 0, 0], [0, 0, -1, 1, 0, 0, 0],
              [0, 1, 0, -1, 0, 0, 0], [0, 0, 0, 0, 1, 0, 0]],
      flags = {}, c_size = 8\<rparr>"

definition wrap_lp_b :: basic_map where
  "wrap_lp_b =
     \<lparr>n_total = 6,
      eq = [[-1, 0, 1, 0, 0, 1, 0], [0, 0, 0, 0, 0, 1, 1], [0, 0, 0, 0, 0, 1, -1]],
      ineq = [[0, 1, 0, 0, 0, 0, 0], [0, 0, 1, 1, 0, 0, 0], [0, 0, 2, 0, 0, 0, 0],
              [0, 2, -3, -1, 0, 0, 0], [0, 0, 0, 0, 1, 0, 0]],
      flags = {}, c_size = 8\<rparr>"

section \<open>Extending the hull from an initial facet\<close>

text \<open>
  Modelled from the spec: the polyhedron mutators of section 6.
  \<open>isl_basic_set_alloc_inequality\<close> returns the index of a new inequality row, or
  fails (\<open>None\<close> for a negative index) when the allocated rows are used up;
  \<open>isl_basic_set_extend(hull, 0, dim, 0, 0, n)\<close> makes room for \<open>n\<close> more
  inequalities; \<open>isl_basic_set_free_inequality(hull, 1)\<close> gives the last row back.
\<close>

definition isl_basic_set_alloc_inequality :: "basic_map \<Rightarrow> nat option" where
  "isl_basic_set_alloc_inequality bset =
     (if length (eq bset) + length (ineq bset) < c_size bset
      then Some (length (ineq bset)) else None)"

definition isl_basic_set_extend :: "basic_map \<Rightarrow> nat \<Rightarrow> basic_map" where
  "isl_basic_set_extend bset n =
     bset\<lparr>c_size := max (c_size bset) (length (eq bset) + length (ineq bset) + n)\<rparr>"

definition isl_basic_set_free_inequality :: "basic_map \<Rightarrow> nat \<Rightarrow> basic_map" where
  "isl_basic_set_free_inequality bset n = bset\<lparr>ineq := take (length (ineq bset) - n) (ineq bset)\<rparr>"

text \<open>
  The body of the loop over the ridges \<open>facet->ineq[j]\<close> of the facet \<open>hull->ineq[i]\<close>
  in \<open>extend\<close>: a row is allocated and seeded with a copy of \<open>hull->ineq[i]\<close>,
  \<open>wrap_facet\<close> rewrites it in place, the rows before it are scanned with
  \<open>isl_seq_eq\<close>, and the row is freed again if the scan stopped early. \<open>None\<close> is
  \<open>goto error\<close>. The function \<open>wrap\<close> is \<open>wrap_facet\<close> with its collaborators.
\<close>

definition extend_candidate ::
  "(isl_set \<Rightarrow> row \<Rightarrow> row \<Rightarrow> row option) \<Rightarrow> isl_set \<Rightarrow> nat \<Rightarrow> basic_map \<Rightarrow> row
     \<Rightarrow> basic_map option" where
  "extend_candidate wrap s i h ridge =
     (case isl_basic_set_alloc_inequality h of
        None \<Rightarrow> None
      | Some k \<Rightarrow>
          (case wrap s (isl_seq_cpy (ineq h ! i) (1 + n_dim s)) ridge of
             None \<Rightarrow> None
           | Some cand \<Rightarrow>
               (let h1 = h\<lparr>ineq := ineq h @ [cand]\<rparr>
                in if list_ex (\<lambda>f. isl_seq_eq (ineq h1 ! f) (ineq h1 ! k) (1 + n_dim s)) [0..<k]
                   then Some (isl_basic_set_free_inequality h1 1)
                   else Some h1)))"

text \<open>The loop \<open>for (j = 0; j < facet->n_ineq; ++j)\<close>.\<close>

fun extend_ridges ::
  "(isl_set \<Rightarrow> row \<Rightarrow> row \<Rightarrow> row option) \<Rightarrow> isl_set \<Rightarrow> nat \<Rightarrow> basic_map \<Rightarrow> row list
     \<Rightarrow> basic_map option" where
  "extend_ridges wrap s i h [] = Some h"
| "extend_ridges wrap s i h (ridge # ridges) =
     (case extend_candidate wrap s i h ridge of
        None \<Rightarrow> None
      | Some h' \<Rightarrow> extend_ridges wrap s i h' ridges)"

text \<open>
  The loop \<open>for (i = 0; i < hull->n_ineq; ++i)\<close>, whose bound grows while it runs: it
  need not end, so it is a partial function (\<open>None\<close> if it runs forever; \<open>Some None\<close>
  is \<open>goto error\<close>). \<open>compute_facet\<close>, which recurses into the hull of one dimension
  less, is a parameter: the loop reads only the inequalities of the facet it returns.
  \<open>n_ineq\<close> is the local variable of that name.
\<close>

partial_function (option) extend_walk ::
  "(isl_set \<Rightarrow> row \<Rightarrow> basic_map option) \<Rightarrow> (isl_set \<Rightarrow> row \<Rightarrow> row \<Rightarrow> row option)
     \<Rightarrow> isl_set \<Rightarrow> nat \<Rightarrow> nat \<Rightarrow> basic_map \<Rightarrow> basic_map option option" where
  "extend_walk compute_facet wrap s i n_ineq h =
     (if i < length (ineq h) then
        (case compute_facet s (ineq h ! i) of
           None \<Rightarrow> Some None
         | Some facet \<Rightarrow>
             (let grow = n_ineq < length (ineq facet) + length (ineq h);
                  h1 = (if grow then isl_basic_set_extend h (length (ineq facet)) else h);
                  n1 = (if grow then length (ineq h1) + length (ineq facet) else n_ineq)
              in (case extend_ridges wrap s i h1 (ineq facet) of
                    None \<Rightarrow> Some None
                  | Some h2 \<Rightarrow> extend_walk compute_facet wrap s (i + 1) n1 h2)))
      else Some (Some h))"

text \<open>
  \<open>extend(ctx, set, initial)\<close>, with \<open>isl_basic_set_simplify\<close> and
  \<open>isl_basic_set_finalize\<close> as parameters; \<open>initial->n_col\<close> is the length of the rows
  of \<open>initial\<close>.
\<close>

definition extend ::
  "(basic_map \<Rightarrow> basic_map option) \<Rightarrow> (basic_map \<Rightarrow> basic_map option)
     \<Rightarrow> (isl_set \<Rightarrow> row \<Rightarrow> basic_map option) \<Rightarrow> (isl_set \<Rightarrow> row \<Rightarrow> row \<Rightarrow> row option)
     \<Rightarrow> isl_set \<Rightarrow> mat \<Rightarrow> basic_map option option" where
  "extend simplify finalize compute_facet wrap s initial =
     (if length (members s) = 0 then Some None
      else
        (let n_ineq = 1 + sum_list (map (\<lambda>b. length (eq b) + length (ineq b)) (members s))
         in if 1 + n_dim s \<noteq> length (initial ! 0) then Some None
            else
              (case isl_basic_set_set_rational finalize
                      (Some \<lparr>n_total = n_dim s, eq = [], ineq = [], flags = {},
                             c_size = n_ineq\<rparr>) of
                 None \<Rightarrow> Some None
               | Some h \<Rightarrow>
                   (case isl_basic_set_alloc_inequality h of
                      None \<Rightarrow> Some None
                    | Some k \<Rightarrow>
                        (case extend_walk compute_facet wrap s 0 n_ineq
                                (h\<lparr>ineq := ineq h @ [isl_seq_cpy (initial ! 0) (length (initial ! 0))]\<rparr>) of
                           None \<Rightarrow> None
                         | Some None \<Rightarrow> Some None
                         | Some (Some h') \<Rightarrow>
                             Some (case simplify h' of None \<Rightarrow> None | Some h'' \<Rightarrow> finalize h''))))))"

text \<open>No two rows agree on their first \<open>len\<close> entries (no two are \<open>isl_seq_eq\<close>).\<close>

definition no_equal_rows :: "nat \<Rightarrow> row list \<Rightarrow> bool" where
  "no_equal_rows len rows \<longleftrightarrow> distinct (map (take len) rows)"

text \<open>
  The halfplane \<open>x\<^sub>1 \<ge> 0\<close> together with the origin: at \<open>x\<^sub>1 = 1\<close> the coordinate
  \<open>x\<^sub>2\<close> has no minimum over the cone, so a wrap of the facet \<open>x\<^sub>1 \<ge> 0\<close> around the
  ridge \<open>x\<^sub>2 \<ge> 0\<close> is unbounded.
\<close>

definition halfplane :: basic_map where
  "halfplane = \<lparr>n_total = 2, eq = [], ineq = [[0, 1, 0]], flags = {}, c_size = 1\<rparr>"

definition set_c :: isl_set where
  "set_c = \<lparr>n_dim = 2, members = [halfplane, origin_2d]\<rparr>"

definition hull_c :: basic_map where
  "hull_c = \<lparr>n_total = 2, eq = [], ineq = [[0, 1, 0]], flags = {RATIONAL}, c_size = 4\<rparr>"

definition lp_unbounded :: lp_solver where
  "lp_unbounded bmap f has_opt_d = isl_lp_unbounded"

text \<open>
  The LP that \<open>wrap_constraints\<close> builds for this example, and what an unbounded
  answer means (the \<open>unbounded\<close> case of the contract of section 4.1).
\<close>

definition wrap_lp_c :: basic_map where
  "wrap_lp_c =
     \<lparr>n_total = 6,
      eq = [[-1, 0, 1, 0, 0, 1, 0], [0, 0, 0, 0, 0, 1, 0], [0, 0, 0, 0, 0, 0, 1]],
      ineq = [[0, 1, 0, 0, 0, 0, 0], [0, 0, 1, 0, 0, 0, 0], [0, 0, 0, 0, 1, 0, 0]],
      flags = {}, c_size = 6\<rparr>"

definition lp_no_minimum :: "basic_map \<Rightarrow> row \<Rightarrow> bool" where
  "lp_no_minimum bmap f \<longleftrightarrow> (\<forall>m. \<exists>x. satisfies bmap x \<and> dotp f x < m)"

section \<open>The hull of a single polyhedron\<close>

text \<open>
  \<open>isl_basic_map_convex_hull(bmap)\<close>; \<open>None\<close> is the null pointer. Gaussian
  elimination (\<open>isl_basic_map_gauss\<close>) and the four operations on the simplex tableau
  are parameters. The source uses the result of \<open>isl_basic_map_gauss\<close> without a null
  test, so the parameter is a total function here. The elimination comes first: the
  three tests read its result.
\<close>

definition isl_basic_map_convex_hull ::
  "(basic_map \<Rightarrow> basic_map) \<Rightarrow> (basic_map \<Rightarrow> 'tab) \<Rightarrow> ('tab \<Rightarrow> 'tab) \<Rightarrow> ('tab \<Rightarrow> 'tab)
     \<Rightarrow> (basic_map \<Rightarrow> 'tab \<Rightarrow> basic_map) \<Rightarrow> basic_map option \<Rightarrow> basic_map option" where
  "isl_basic_map_convex_hull gauss tab_from_basic_map tab_detect_equalities
       tab_detect_redundant update_from_tab bmap =
     (case bmap of
        None \<Rightarrow> None
      | Some b0 \<Rightarrow>
          (let b = gauss b0 in
           if EMPTY \<in> flags b then Some b
           else if NO_REDUNDANT \<in> flags b then Some b
           else if length (ineq b) \<le> 1 then Some b
           else
             (let tab = tab_detect_redundant (tab_detect_equalities (tab_from_basic_map b));
                  b1 = update_from_tab b tab;
                  b2 = b1\<lparr>flags := insert NO_IMPLICIT (flags b1)\<rparr>
              in Some (b2\<lparr>flags := insert NO_REDUNDANT (flags b2)\<rparr>))))"

text \<open>
  Modelled from the spec: Gaussian elimination on the equalities (section 4.3), built
  on the elementary elimination of section 6. For each variable, from the last to the
  first, an equality that has it is made the pivot (with a positive coefficient) and the
  variable is eliminated from the other equalities and from the inequalities. An
  equality left without variables is dropped if it reads \<open>0 = 0\<close> and marks the
  polyhedron empty otherwise.
\<close>

definition elim_row :: "nat \<Rightarrow> row \<Rightarrow> row \<Rightarrow> row" where
  "elim_row pos src dst =
     (if dst ! pos = 0 then dst
      else (let g = gcd (src ! pos) (dst ! pos); a = src ! pos div g; b = dst ! pos div g
            in map2 (\<lambda>d s. a * d - b * s) dst src))"

fun gauss_cols :: "nat \<Rightarrow> row list \<Rightarrow> row list \<Rightarrow> row list \<Rightarrow> row list \<times> row list \<times> row list" where
  "gauss_cols 0 pivots rest ineqs = (pivots, rest, ineqs)"
| "gauss_cols (Suc v) pivots rest ineqs =
     (case find (\<lambda>e. e ! Suc v \<noteq> 0) rest of
        None \<Rightarrow> gauss_cols v pivots rest ineqs
      | Some e \<Rightarrow>
          (let piv = (if e ! Suc v < 0 then map uminus e else e)
           in gauss_cols v (map (elim_row (Suc v) piv) pivots @ [piv])
                (map (elim_row (Suc v) piv) (remove1 e rest))
                (map (elim_row (Suc v) piv) ineqs)))"

definition gauss_elim :: "basic_map \<Rightarrow> basic_map" where
  "gauss_elim bmap =
     (case gauss_cols (n_total bmap) [] (eq bmap) (ineq bmap) of
        (pivots, rest, ineqs) \<Rightarrow>
          if list_ex (\<lambda>e. hd e \<noteq> 0) rest
          then bmap\<lparr>eq := pivots, ineq := ineqs, flags := insert EMPTY (flags bmap)\<rparr>
          else bmap\<lparr>eq := pivots, ineq := ineqs\<rparr>)"

text \<open>
  The ray \<open>y = 0\<close>, \<open>x + y \<ge> 0\<close> in the plane: one inequality, no flag. Eliminating \<open>y\<close>
  turns its inequality into \<open>x \<ge> 0\<close>.
\<close>

definition ray_xy :: basic_map where
  "ray_xy = \<lparr>n_total = 2, eq = [[0, 0, 1]], ineq = [[0, 1, 1]], flags = {}, c_size = 2\<rparr>"

section \<open>Properties\<close>

subsection \<open>Points and rows\<close>

lemma dotp_Nil [simp]: "dotp [] x = 0" "dotp b [] = 0"
  by (simp_all add: dotp_def)

lemma dotp_Cons [simp]: "dotp (a # b) (v # x) = of_int a * v + dotp b x"
  by (simp add: dotp_def)

lemma length_one_cases: "length x = Suc 0 \<longleftrightarrow> (\<exists>v. x = [v])"
  by (cases x) auto

subsection \<open>The sign filter\<close>

lemma ineq_with_sign_iff:
  "ineq_with_sign s i rs \<longleftrightarrow> (\<exists>r \<in> set rs. sgn (r ! (1 + i)) = s)"
  by (induction rs) auto

lemma sign_filter_stops_iff:
  "sign_filter bmap c i < n_total bmap \<longleftrightarrow>
     (\<exists>k. i \<le> k \<and> k < n_total bmap \<and> c ! (1 + k) \<noteq> 0
        \<and> \<not> ineq_with_sign (sgn (c ! (1 + k))) k (ineq bmap))"
proof (induction bmap c i rule: sign_filter.induct)
  case (1 bmap c i)
  show ?case
  proof (cases "i < n_total bmap")
    case False
    then show ?thesis by (subst sign_filter.simps) auto
  next
    case in_range: True
    show ?thesis
    proof (cases "c ! (1 + i) = 0 \<or> ineq_with_sign (sgn (c ! (1 + i))) i (ineq bmap)")
      case True
      then have step: "sign_filter bmap c i = sign_filter bmap c (i + 1)"
        using in_range by (subst sign_filter.simps) auto
      have ih: "sign_filter bmap c (i + 1) < n_total bmap \<longleftrightarrow>
          (\<exists>k. i + 1 \<le> k \<and> k < n_total bmap \<and> c ! (1 + k) \<noteq> 0
             \<and> \<not> ineq_with_sign (sgn (c ! (1 + k))) k (ineq bmap))"
        using True in_range "1.IH" by auto
      have "(\<exists>k. i + 1 \<le> k \<and> k < n_total bmap \<and> c ! (1 + k) \<noteq> 0
             \<and> \<not> ineq_with_sign (sgn (c ! (1 + k))) k (ineq bmap)) \<longleftrightarrow>
            (\<exists>k. i \<le> k \<and> k < n_total bmap \<and> c ! (1 + k) \<noteq> 0
             \<and> \<not> ineq_with_sign (sgn (c ! (1 + k))) k (ineq bmap))"
        using True by (metis Suc_eq_plus1 Suc_leD Suc_leI le_neq_implies_less)
      then show ?thesis using step ih by simp
    next
      case False
      then have "sign_filter bmap c i = i"
        using in_range by (subst sign_filter.simps) auto
      then show ?thesis using in_range False by auto
    qed
  qed
qed

subsection \<open>Redundancy of a single inequality\<close>

lemma sign_filter_trigger:
  "sign_filter b c 0 < n_total b \<longleftrightarrow>
     (\<exists>k < n_total b. c ! (1 + k) \<noteq> 0 \<and> (\<forall>r \<in> set (ineq b). sgn (r ! (1 + k)) \<noteq> sgn (c ! (1 + k))))"
  by (auto simp: sign_filter_stops_iff ineq_with_sign_iff)

lemma lp_ok_sign:
  assumes ex: "lp_exact lp b" and len: "length c = 1 + n_total b"
    and ok: "lp b (tl c) True = isl_lp_ok n d"
  shows "0 \<le> n + d * hd c \<longleftrightarrow> contained_in_halfspace b c"
proof -
  have lt: "length (tl c) = n_total b" using len by simp
  from ex lt ok have d: "0 < d"
    and attained: "\<exists>x. satisfies b x \<and> dotp (tl c) x = of_int n / of_int d"
    and lower: "\<forall>x. satisfies b x \<longrightarrow> of_int n / of_int d \<le> dotp (tl c) x"
    unfolding lp_exact_def by (auto dest!: spec[where x="tl c"])
  have dq: "(0::rat) < of_int d" using d by simp
  have key: "0 \<le> n + d * hd c \<longleftrightarrow> (0::rat) \<le> of_int (hd c) + of_int n / of_int d"
  proof -
    have "(0::rat) \<le> of_int (hd c) + of_int n / of_int d \<longleftrightarrow>
          (0::rat) \<le> (of_int (hd c) + of_int n / of_int d) * of_int d"
      using dq by (simp add: zero_le_mult_iff)
    also have "(of_int (hd c) + of_int n / of_int d) * of_int d = (of_int (n + d * hd c) :: rat)"
      using dq by (simp add: field_simps)
    also have "(0::rat) \<le> of_int (n + d * hd c) \<longleftrightarrow> 0 \<le> n + d * hd c"
      by (simp only: of_int_0_le_iff)
    finally show ?thesis by simp
  qed
  show ?thesis
  proof
    assume "0 \<le> n + d * hd c"
    then have "(0::rat) \<le> of_int (hd c) + of_int n / of_int d" using key by simp
    then show "contained_in_halfspace b c"
      unfolding contained_in_halfspace_def row_val_def using lower by fastforce
  next
    assume c: "contained_in_halfspace b c"
    from attained obtain x where "satisfies b x" "dotp (tl c) x = of_int n / of_int d" by blast
    with c have "(0::rat) \<le> of_int (hd c) + of_int n / of_int d"
      unfolding contained_in_halfspace_def row_val_def by fastforce
    then show "0 \<le> n + d * hd c" using key by simp
  qed
qed

lemma contained_not_unbounded:
  assumes ex: "lp_exact lp b" and len: "length c = 1 + n_total b"
    and c: "contained_in_halfspace b c"
  shows "lp b (tl c) True \<noteq> isl_lp_unbounded"
proof
  assume u: "lp b (tl c) True = isl_lp_unbounded"
  have lt: "length (tl c) = n_total b" using len by simp
  from ex lt u have "\<forall>m. \<exists>x. satisfies b x \<and> dotp (tl c) x < m"
    unfolding lp_exact_def by (auto dest!: spec[where x="tl c"])
  then obtain x where "satisfies b x" "dotp (tl c) x < - of_int (hd c)" by blast
  with c show False unfolding contained_in_halfspace_def row_val_def by fastforce
qed

lemma nonempty_not_lp_empty:
  assumes ex: "lp_exact lp b" and len: "length c = 1 + n_total b"
    and x: "satisfies b x"
  shows "lp b (tl c) True \<noteq> isl_lp_empty"
proof
  assume u: "lp b (tl c) True = isl_lp_empty"
  have lt: "length (tl c) = n_total b" using len by simp
  from ex lt u have "\<forall>x. \<not> satisfies b x"
    unfolding lp_exact_def by (auto dest!: spec[where x="tl c"])
  with x show False by blast
qed

lemma lp_ok_nonempty:
  assumes ex: "lp_exact lp b" and len: "length c = 1 + n_total b"
    and ok: "lp b (tl c) True = isl_lp_ok n d"
  shows "\<exists>x. satisfies b x"
proof -
  have lt: "length (tl c) = n_total b" using len by simp
  from ex lt ok show ?thesis
    unfolding lp_exact_def by (auto dest!: spec[where x="tl c"])
qed

text \<open>
  Claim C4, as amended. With an exact LP solver and \<open>opt_d\<close> supplied:
  whenever some variable \<open>x\<^sub>k\<close> with \<open>c\<^sub>k \<noteq> 0\<close> has no inequality of the polyhedron
  with the same sign in \<open>x\<^sub>k\<close>, the function returns 0 without solving any LP and
  leaves the basic map as it is; it returns 1 exactly when the sign filter passes, the LP
  does not fail, the polyhedron has a point and lies in \<open>c \<ge> 0\<close>; it returns -1
  exactly when the LP reports an error (and for a null pointer); the result is one of
  -1, 0, 1.
\<close>

theorem constraint_is_redundant_exact_lp:
  assumes ex: "lp_exact lp b" and len: "length c = 1 + n_total b"
  shows "((\<exists>k < n_total b. c ! (1 + k) \<noteq> 0
            \<and> (\<forall>r \<in> set (ineq b). sgn (r ! (1 + k)) \<noteq> sgn (c ! (1 + k)))) \<longrightarrow>
          isl_basic_map_constraint_is_redundant lp (Some b) c True =
            \<lparr>ret = 0, bmap_out = Some b, opt_n_out = None, lp_calls = 0\<rparr>)
       \<and> (ret (isl_basic_map_constraint_is_redundant lp (Some b) c True) = 1 \<longleftrightarrow>
            \<not> sign_filter b c 0 < n_total b \<and> lp b (tl c) True \<noteq> isl_lp_error
            \<and> (\<exists>x. satisfies b x) \<and> contained_in_halfspace b c)
       \<and> (ret (isl_basic_map_constraint_is_redundant lp (Some b) c True) = -1 \<longleftrightarrow>
            \<not> sign_filter b c 0 < n_total b \<and> lp b (tl c) True = isl_lp_error)
       \<and> ret (isl_basic_map_constraint_is_redundant lp (Some b) c True) \<in> {-1, 0, 1}
       \<and> ret (isl_basic_map_constraint_is_redundant lp None c True) = -1"
proof (intro conjI)
  show "(\<exists>k < n_total b. c ! (1 + k) \<noteq> 0
            \<and> (\<forall>r \<in> set (ineq b). sgn (r ! (1 + k)) \<noteq> sgn (c ! (1 + k)))) \<longrightarrow>
          isl_basic_map_constraint_is_redundant lp (Some b) c True =
            \<lparr>ret = 0, bmap_out = Some b, opt_n_out = None, lp_calls = 0\<rparr>"
    using sign_filter_trigger[of b c] by (simp add: isl_basic_map_constraint_is_redundant_def)
next
  show "ret (isl_basic_map_constraint_is_redundant lp (Some b) c True) = 1 \<longleftrightarrow>
            \<not> sign_filter b c 0 < n_total b \<and> lp b (tl c) True \<noteq> isl_lp_error
            \<and> (\<exists>x. satisfies b x) \<and> contained_in_halfspace b c"
  proof (cases "sign_filter b c 0 < n_total b")
    case True
    then show ?thesis by (simp add: isl_basic_map_constraint_is_redundant_def)
  next
    case False
    show ?thesis
    proof (cases "lp b (tl c) True")
      case (isl_lp_ok n d)
      then show ?thesis
        using False lp_ok_sign[OF ex len isl_lp_ok] lp_ok_nonempty[OF ex len isl_lp_ok]
        by (auto simp: isl_basic_map_constraint_is_redundant_def)
    next
      case isl_lp_unbounded
      then show ?thesis
        using False contained_not_unbounded[OF ex len]
        by (auto simp: isl_basic_map_constraint_is_redundant_def)
    next
      case isl_lp_empty
      then show ?thesis
        using False nonempty_not_lp_empty[OF ex len]
        by (auto simp: isl_basic_map_constraint_is_redundant_def)
    next
      case isl_lp_error
      then show ?thesis
        using False by (auto simp: isl_basic_map_constraint_is_redundant_def)
    qed
  qed
next
  show "ret (isl_basic_map_constraint_is_redundant lp (Some b) c True) = -1 \<longleftrightarrow>
            \<not> sign_filter b c 0 < n_total b \<and> lp b (tl c) True = isl_lp_error"
    by (auto simp: isl_basic_map_constraint_is_redundant_def Let_def split: lp_result.splits)
next
  show "ret (isl_basic_map_constraint_is_redundant lp (Some b) c True) \<in> {-1, 0, 1}"
    by (auto simp: isl_basic_map_constraint_is_redundant_def Let_def split: lp_result.splits)
next
  show "ret (isl_basic_map_constraint_is_redundant lp None c True) = -1"
    by (simp add: isl_basic_map_constraint_is_redundant_def)
qed

lemma satisfies_origin: "satisfies origin_1d x \<longleftrightarrow> x = [0]"
  by (auto simp: satisfies_def origin_1d_def row_val_def length_one_cases)

text \<open>
  Claim C4 as stated fails: the point \<open>x = 0\<close>, given by the equality \<open>x = 0\<close>, lies
  in \<open>x \<ge> 0\<close>, but the sign filter finds no inequality with a positive coefficient of
  \<open>x\<close> and the function returns 0.
\<close>

theorem constraint_is_redundant_counterexample:
  "contained_in_halfspace origin_1d [0, 1]
   \<and> ret (isl_basic_map_constraint_is_redundant lp_origin (Some origin_1d) [0, 1] True) = 0"
proof -
  have "sign_filter origin_1d [0, 1] 0 = 0"
    by (simp add: sign_filter.simps origin_1d_def)
  then have "ret (isl_basic_map_constraint_is_redundant lp_origin (Some origin_1d) [0, 1] True) = 0"
    by (simp add: isl_basic_map_constraint_is_redundant_def origin_1d_def)
  moreover have "contained_in_halfspace origin_1d [0, 1]"
    by (simp add: contained_in_halfspace_def satisfies_origin row_val_def)
  ultimately show ?thesis by simp
qed

lemma satisfies_halfline:
  "satisfies (halfline p q) x \<longleftrightarrow> (\<exists>v. x = [v] \<and> of_int p \<le> of_int q * v)"
  by (auto simp: satisfies_def halfline_def row_val_def length_one_cases)

lemma lp_halfline_exact:
  assumes q: "0 < q"
  shows "lp_exact lp_halfline (halfline p q)"
  unfolding lp_exact_def
proof (intro allI impI)
  fix f :: row assume "length f = n_total (halfline p q)"
  then obtain a where f: "f = [a]" by (auto simp: halfline_def length_one_cases)
  have qr: "(0::rat) < of_int q" using q by simp
  show "case lp_halfline (halfline p q) f True of
           isl_lp_ok n d \<Rightarrow>
             0 < d \<and> (\<exists>x. satisfies (halfline p q) x \<and> dotp f x = of_int n / of_int d)
               \<and> (\<forall>x. satisfies (halfline p q) x \<longrightarrow> of_int n / of_int d \<le> dotp f x)
         | isl_lp_unbounded \<Rightarrow> (\<forall>m. \<exists>x. satisfies (halfline p q) x \<and> dotp f x < m)
         | isl_lp_empty \<Rightarrow> (\<forall>x. \<not> satisfies (halfline p q) x)
         | isl_lp_error \<Rightarrow> True"
  proof (cases "0 \<le> a")
    case True
    have res: "lp_halfline (halfline p q) f True = isl_lp_ok (a * p) q"
      using True by (simp add: lp_halfline_def halfline_def f)
    have at: "satisfies (halfline p q) [of_int p / of_int q]
        \<and> dotp f [of_int p / of_int q] = of_int (a * p) / of_int q"
      using qr by (simp add: satisfies_halfline f)
    have low: "\<forall>x. satisfies (halfline p q) x \<longrightarrow> of_int (a * p) / of_int q \<le> dotp f x"
    proof (intro allI impI)
      fix x assume "satisfies (halfline p q) x"
      then obtain v where x: "x = [v]" and v: "of_int p \<le> of_int q * v"
        by (auto simp: satisfies_halfline)
      have "of_int p / of_int q \<le> v" using v qr by (simp add: pos_divide_le_eq mult.commute)
      then have "of_int a * (of_int p / of_int q) \<le> of_int a * v"
        by (rule mult_left_mono) (use True in simp_all)
      then show "of_int (a * p) / of_int q \<le> dotp f x" by (simp add: f x)
    qed
    show ?thesis unfolding res using q at low by auto
  next
    case False
    then have neg: "(of_int a :: rat) < 0" by simp
    have res: "lp_halfline (halfline p q) f True = isl_lp_unbounded"
      using False by (simp add: lp_halfline_def halfline_def f)
    have "\<forall>m. \<exists>x. satisfies (halfline p q) x \<and> dotp f x < m"
    proof
      fix m :: rat
      define v where "v = max (of_int p / of_int q) ((m - 1) / of_int a)"
      have 1: "of_int p \<le> of_int q * v"
      proof -
        have "of_int p / of_int q \<le> v" by (simp add: v_def)
        then show ?thesis using qr by (simp add: pos_divide_le_eq mult.commute)
      qed
      have "(m - 1) / of_int a \<le> v" by (simp add: v_def)
      then have "of_int a * v \<le> m - 1" using neg by (simp add: neg_divide_le_eq mult.commute)
      then have 2: "of_int a * v < m" by simp
      show "\<exists>x. satisfies (halfline p q) x \<and> dotp f x < m"
        using 1 2 by (auto simp: satisfies_halfline f intro!: exI[where x="[v]"])
    qed
    then show ?thesis unfolding res by simp
  qed
qed

text \<open>
  Claim C4, witness: on the halfline \<open>x \<ge> 0\<close> the constraint \<open>3 - x \<ge> 0\<close> is rejected
  by the sign filter with no LP solved, and \<open>1 + x \<ge> 0\<close> is found redundant.
\<close>

theorem constraint_is_redundant_witness:
  "lp_exact lp_halfline (halfline 0 1) \<and> length [3, -1 :: int] = 1 + n_total (halfline 0 1)
   \<and> isl_basic_map_constraint_is_redundant lp_halfline (Some (halfline 0 1)) [3, -1] True
       = \<lparr>ret = 0, bmap_out = Some (halfline 0 1), opt_n_out = None, lp_calls = 0\<rparr>
   \<and> ret (isl_basic_map_constraint_is_redundant lp_halfline (Some (halfline 0 1)) [1, 1] True) = 1
   \<and> contained_in_halfspace (halfline 0 1) [1, 1]"
proof -
  have ex: "lp_exact lp_halfline (halfline 0 1)" by (rule lp_halfline_exact) simp
  have len: "length [3, -1 :: int] = 1 + n_total (halfline 0 1)" by (simp add: halfline_def)
  have len': "length [1, 1 :: int] = 1 + n_total (halfline 0 1)" by (simp add: halfline_def)
  have trig: "\<exists>k < n_total (halfline 0 1). [3, -1 :: int] ! (1 + k) \<noteq> 0
            \<and> (\<forall>r \<in> set (ineq (halfline 0 1)). sgn (r ! (1 + k)) \<noteq> sgn ([3, -1 :: int] ! (1 + k)))"
    by (simp add: halfline_def)
  have stop: "isl_basic_map_constraint_is_redundant lp_halfline (Some (halfline 0 1)) [3, -1] True
       = \<lparr>ret = 0, bmap_out = Some (halfline 0 1), opt_n_out = None, lp_calls = 0\<rparr>"
    using constraint_is_redundant_exact_lp[OF ex len] trig by blast
  have one: "ret (isl_basic_map_constraint_is_redundant lp_halfline (Some (halfline 0 1)) [1, 1] True) = 1"
    by (simp add: isl_basic_map_constraint_is_redundant_def sign_filter.simps halfline_def
        lp_halfline_def)
  have "contained_in_halfspace (halfline 0 1) [1, 1]"
    using constraint_is_redundant_exact_lp[OF ex len'] one by blast
  then show ?thesis using ex len stop one by blast
qed

subsection \<open>Bound test\<close>

lemma dotp_scale: "dotp (map (\<lambda>a. a * d) f) x = of_int d * dotp f x"
proof (induction f arbitrary: x)
  case Nil
  then show ?case by simp
next
  case (Cons a f)
  then show ?case by (cases x) (simp_all add: algebra_simps)
qed

lemma isl_seq_scale_full: "length c = len \<Longrightarrow> isl_seq_scale c d len = map (\<lambda>a. a * d) c"
  by (simp add: isl_seq_scale_def)

lemma hd_scale: "c \<noteq> [] \<Longrightarrow> hd (map (\<lambda>a. a * d) c) = hd c * (d::int)"
  by (cases c) simp_all

lemma hd_list_update0: "c \<noteq> [] \<Longrightarrow> hd (c[0 := v]) = v"
  by (cases c) simp_all

lemma tl_list_update0: "tl (c[0 := v]) = tl c"
  by (cases c) simp_all

lemma in_uset_Cons: "in_uset (p # ps) x \<longleftrightarrow> in_member p x \<or> in_uset ps x"
  by (simp add: in_uset_def)

lemma in_uset_Nil: "\<not> in_uset [] x"
  by (simp add: in_uset_def)

lemma bounded_below_scale:
  assumes d: "0 < d"
  shows "bounded_below (map (\<lambda>a. a * d) f) p \<longleftrightarrow> bounded_below f p"
proof
  assume "bounded_below (map (\<lambda>a. a * d) f) p"
  then obtain m where m: "\<forall>x. in_member p x \<longrightarrow> m \<le> of_int d * dotp f x"
    by (auto simp: bounded_below_def dotp_scale)
  have "\<forall>x. in_member p x \<longrightarrow> m / of_int d \<le> dotp f x"
  proof (intro allI impI)
    fix x assume "in_member p x"
    then have "m \<le> of_int d * dotp f x" using m by blast
    then show "m / of_int d \<le> dotp f x" using d by (simp add: pos_divide_le_eq mult.commute)
  qed
  then show "bounded_below f p" unfolding bounded_below_def by blast
next
  assume "bounded_below f p"
  then obtain m where m: "\<forall>x. in_member p x \<longrightarrow> m \<le> dotp f x"
    by (auto simp: bounded_below_def)
  have "\<forall>x. in_member p x \<longrightarrow> of_int d * m \<le> of_int d * dotp f x"
    using m d by (simp add: mult_left_mono)
  then show "bounded_below (map (\<lambda>a. a * d) f) p"
    unfolding bounded_below_def dotp_scale by blast
qed

lemma lp_exact_ok:
  assumes "lp_exact lp p" "length f = n_total p" "lp p f True = isl_lp_ok n d"
  shows "0 < d" "\<exists>x. satisfies p x \<and> dotp f x = of_int n / of_int d"
    "\<And>x. satisfies p x \<Longrightarrow> of_int n / of_int d \<le> dotp f x"
  using assms unfolding lp_exact_def by (auto dest!: spec[where x=f])

lemma lp_exact_unbounded:
  assumes "lp_exact lp p" "length f = n_total p" "lp p f True = isl_lp_unbounded"
  shows "\<exists>x. satisfies p x \<and> dotp f x < m"
  using assms unfolding lp_exact_def by (auto dest!: spec[where x=f])

lemma lp_exact_empty:
  assumes "lp_exact lp p" "length f = n_total p" "lp p f True = isl_lp_empty"
  shows "\<not> satisfies p x"
  using assms unfolding lp_exact_def by (auto dest!: spec[where x=f])


lemma bound_loop_inv:
  assumes "\<forall>p \<in> set s. lp_exact lp p \<and> n_total p = nvar"
    and "length c = 1 + nvar"
    and "bound_loop lp (1 + nvar) s c first = (e, s', c')"
    and "first \<longrightarrow> (\<forall>x. \<not> A x)"
    and "\<not> first \<longrightarrow> (\<forall>x. A x \<longrightarrow> of_int (hd c) \<le> dotp (tl c) x)
           \<and> (\<exists>x. A x \<and> dotp (tl c) x = of_int (hd c))"
  shows "\<exists>K>0. tl c' = map (\<lambda>a. a * K) (tl c) \<and> length c' = 1 + nvar
     \<and> (e = Left_early \<longrightarrow> (\<exists>p \<in> set s. \<not> bounded_below (tl c) p))
     \<and> (e = Completed \<longrightarrow> (\<forall>p \<in> set s. bounded_below (tl c) p) \<and> s' = map mark_empty s
          \<and> (first \<and> (\<forall>x. \<not> in_uset s x) \<longrightarrow> c' = c)
          \<and> (\<not> first \<or> (\<exists>x. in_uset s x) \<longrightarrow>
               (\<forall>x. A x \<or> in_uset s x \<longrightarrow> of_int (hd c') \<le> dotp (tl c') x)
             \<and> (\<exists>x. (A x \<or> in_uset s x) \<and> dotp (tl c') x = of_int (hd c'))))"
  using assms
proof (induction s arbitrary: c first A e s' c')
  case Nil
  then have "c' = c" "e = Completed" "s' = []" by simp_all
  then show ?case
    using Nil.prems by (intro exI[where x=1]) (auto simp: in_uset_Nil)
next
  case (Cons p ps)
  have exact_p: "lp_exact lp p" and dim_p: "n_total p = nvar"
    and rest: "\<forall>p \<in> set ps. lp_exact lp p \<and> n_total p = nvar"
    using Cons.prems(1) by simp_all
  have len_c: "length c = 1 + nvar" by (rule Cons.prems(2))
  have len_f: "length (tl c) = n_total p" using len_c dim_p by simp
  have c_ne: "c \<noteq> []" using len_c by auto
  note run = Cons.prems(3)
  show ?case
  proof (cases "EMPTY \<in> flags p")
    case True
    obtain e1 s1 c1 where r1: "bound_loop lp (1 + nvar) ps c first = (e1, s1, c1)"
      by (metis prod_cases3)
    from run True r1 have eq: "e = e1" "s' = p # s1" "c' = c1" by simp_all
    have nomem: "\<And>x. \<not> in_member p x" using True by (simp add: in_member_def)
    have bb: "bounded_below (tl c) p" using nomem by (simp add: bounded_below_def)
    have mk: "mark_empty p = p" using True by (simp add: mark_empty_def)
    from Cons.IH[OF rest len_c r1 Cons.prems(4) Cons.prems(5)]
    obtain K where K: "0 < K" "tl c1 = map (\<lambda>a. a * K) (tl c)" "length c1 = 1 + nvar"
      "e1 = Left_early \<longrightarrow> (\<exists>p \<in> set ps. \<not> bounded_below (tl c) p)"
      "e1 = Completed \<longrightarrow> (\<forall>p \<in> set ps. bounded_below (tl c) p) \<and> s1 = map mark_empty ps
          \<and> (first \<and> (\<forall>x. \<not> in_uset ps x) \<longrightarrow> c1 = c)
          \<and> (\<not> first \<or> (\<exists>x. in_uset ps x) \<longrightarrow>
               (\<forall>x. A x \<or> in_uset ps x \<longrightarrow> of_int (hd c1) \<le> dotp (tl c1) x)
             \<and> (\<exists>x. (A x \<or> in_uset ps x) \<and> dotp (tl c1) x = of_int (hd c1)))"
      by blast
    show ?thesis
      apply (rule exI[where x=K])
      using K bb mk nomem unfolding eq in_uset_Cons by simp
  next
    case unflagged: False
    have mem: "\<And>x. in_member p x \<longleftrightarrow> satisfies p x"
      using unflagged by (simp add: in_member_def)
    show ?thesis
    proof (cases "lp p (tl c) True")
      case isl_lp_unbounded
      from run unflagged isl_lp_unbounded have eq: "e = Left_early" "c' = c" by simp_all
      have "\<not> bounded_below (tl c) p"
      proof
        assume "bounded_below (tl c) p"
        then obtain m where m: "\<forall>x. in_member p x \<longrightarrow> m \<le> dotp (tl c) x"
          by (auto simp: bounded_below_def)
        from lp_exact_unbounded[OF exact_p len_f isl_lp_unbounded, of m]
        obtain x where "satisfies p x" "dotp (tl c) x < m" by blast
        with m mem show False by fastforce
      qed
      then show ?thesis
        using eq len_c by (intro exI[where x=1]) auto
    next
      case isl_lp_error
      from run unflagged isl_lp_error have eq: "e = Failed" "c' = c" by simp_all
      then show ?thesis using len_c by (intro exI[where x=1]) auto
    next
      case isl_lp_empty
      have nosat: "\<And>x. \<not> satisfies p x"
        using lp_exact_empty[OF exact_p len_f isl_lp_empty] by blast
      obtain e1 s1 c1 where r1: "bound_loop lp (1 + nvar) ps c first = (e1, s1, c1)"
        by (metis prod_cases3)
      from run unflagged isl_lp_empty r1
      have eq: "e = e1" "s' = p\<lparr>flags := insert EMPTY (flags p)\<rparr> # s1" "c' = c1"
        by (simp_all add: isl_basic_map_set_to_empty_def)
      have nomem: "\<And>x. \<not> in_member p x" using nosat by (simp add: in_member_def)
      have bb: "bounded_below (tl c) p" using nomem by (simp add: bounded_below_def)
      have mk: "mark_empty p = p\<lparr>flags := insert EMPTY (flags p)\<rparr>"
        using unflagged nosat by (simp add: mark_empty_def)
      from Cons.IH[OF rest len_c r1 Cons.prems(4) Cons.prems(5)]
      obtain K where K: "0 < K" "tl c1 = map (\<lambda>a. a * K) (tl c)" "length c1 = 1 + nvar"
        "e1 = Left_early \<longrightarrow> (\<exists>p \<in> set ps. \<not> bounded_below (tl c) p)"
        "e1 = Completed \<longrightarrow> (\<forall>p \<in> set ps. bounded_below (tl c) p) \<and> s1 = map mark_empty ps
            \<and> (first \<and> (\<forall>x. \<not> in_uset ps x) \<longrightarrow> c1 = c)
            \<and> (\<not> first \<or> (\<exists>x. in_uset ps x) \<longrightarrow>
                 (\<forall>x. A x \<or> in_uset ps x \<longrightarrow> of_int (hd c1) \<le> dotp (tl c1) x)
               \<and> (\<exists>x. (A x \<or> in_uset ps x) \<and> dotp (tl c1) x = of_int (hd c1)))"
        by blast
      show ?thesis
        apply (rule exI[where x=K])
        using K bb mk nomem unfolding eq in_uset_Cons by simp
    next
      case (isl_lp_ok n d)
      note ok = lp_exact_ok[OF exact_p len_f isl_lp_ok]
      have d: "0 < d" by (rule ok(1))
      have dq: "(0::rat) < of_int d" using d by simp
      define c1 where "c1 = map (\<lambda>a. a * d) c"
      have c1_eq: "(if d \<noteq> 1 then isl_seq_scale c d (1 + nvar) else c) = c1"
        using len_c by (simp add: c1_def isl_seq_scale_full map_idI)
      define c2 where "c2 = (if first \<or> n < hd c1 then c1[0 := n] else c1)"
      obtain e1 s1 c3 where r1: "bound_loop lp (1 + nvar) ps c2 False = (e1, s1, c3)"
        by (metis prod_cases3)
      from run unflagged isl_lp_ok r1
      have eq: "e = e1" "s' = p # s1" "c' = c3"
        unfolding bound_loop.simps c1_eq[symmetric] c2_def by (simp_all add: Let_def)
      have hd_c1: "hd c1 = hd c * d" using c_ne by (simp add: c1_def hd_scale)
      have tl_c2: "tl c2 = map (\<lambda>a. a * d) (tl c)"
        by (simp add: c2_def tl_list_update0 c1_def map_tl)
      have len_c2: "length c2 = 1 + nvar" using len_c by (simp add: c2_def c1_def)
      have c1_ne: "c1 \<noteq> []" using c_ne by (simp add: c1_def)
      have hd_c2: "hd c2 = (if first \<or> n < hd c * d then n else hd c * d)"
        using c1_ne by (simp add: c2_def hd_list_update0 hd_c1)
      have hd_c2_le_n: "hd c2 \<le> n" by (simp add: hd_c2)
      have scaled_p: "of_int n \<le> of_int d * dotp (tl c) x" if "satisfies p x" for x
      proof -
        have "of_int n / of_int d \<le> dotp (tl c) x" using ok(3)[OF that] .
        then show ?thesis using dq by (simp add: pos_divide_le_eq mult.commute)
      qed
      obtain xp where xp: "satisfies p xp" "dotp (tl c) xp = of_int n / of_int d"
        using ok(2) by blast
      have xp_val: "of_int d * dotp (tl c) xp = of_int n" using xp(2) dq by simp
      let ?A' = "\<lambda>x. A x \<or> in_member p x"
      have inv1: "\<forall>x. ?A' x \<longrightarrow> of_int (hd c2) \<le> dotp (tl c2) x"
      proof (intro allI impI)
        fix x assume "?A' x"
        then show "of_int (hd c2) \<le> dotp (tl c2) x"
        proof
          assume ax: "A x"
          then have nf: "\<not> first" using Cons.prems(4) by blast
          then have "of_int (hd c) \<le> dotp (tl c) x" using Cons.prems(5) ax by blast
          then have "of_int d * of_int (hd c) \<le> of_int d * dotp (tl c) x"
            using dq by (simp add: mult_left_mono)
          moreover have "(of_int (hd c2) :: rat) \<le> of_int (hd c * d)"
            unfolding of_int_le_iff using nf by (simp add: hd_c2)
          ultimately show ?thesis by (simp add: tl_c2 dotp_scale mult.commute)
        next
          assume "in_member p x"
          then have "satisfies p x" using mem by simp
          then have "of_int n \<le> of_int d * dotp (tl c) x" by (rule scaled_p)
          moreover have "(of_int (hd c2) :: rat) \<le> of_int n"
            unfolding of_int_le_iff by (rule hd_c2_le_n)
          ultimately show ?thesis by (simp add: tl_c2 dotp_scale)
        qed
      qed
      have inv2: "\<exists>x. ?A' x \<and> dotp (tl c2) x = of_int (hd c2)"
      proof (cases "first \<or> n < hd c * d")
        case True
        then have "hd c2 = n" by (simp add: hd_c2)
        then show ?thesis
          using xp(1) xp_val mem by (auto simp: tl_c2 dotp_scale intro!: exI[where x=xp])
      next
        case False
        then have h: "hd c2 = hd c * d" and nf: "\<not> first" by (simp_all add: hd_c2)
        from nf Cons.prems(5) obtain x where x: "A x" "dotp (tl c) x = of_int (hd c)" by blast
        show ?thesis
          using x by (auto simp: tl_c2 dotp_scale h mult.commute intro!: exI[where x=x])
      qed
      have p4: "False \<longrightarrow> (\<forall>x. \<not> ?A' x)" by simp
      have p5: "\<not> False \<longrightarrow> (\<forall>x. ?A' x \<longrightarrow> of_int (hd c2) \<le> dotp (tl c2) x)
           \<and> (\<exists>x. ?A' x \<and> dotp (tl c2) x = of_int (hd c2))"
        using inv1 inv2 by blast
      from Cons.IH[OF rest len_c2 r1 p4 p5]
      obtain K where K: "0 < K" "tl c3 = map (\<lambda>a. a * K) (tl c2)" "length c3 = 1 + nvar"
        "e1 = Left_early \<longrightarrow> (\<exists>p \<in> set ps. \<not> bounded_below (tl c2) p)"
        "e1 = Completed \<longrightarrow> (\<forall>p \<in> set ps. bounded_below (tl c2) p) \<and> s1 = map mark_empty ps
            \<and> (\<not> False \<or> (\<exists>x. in_uset ps x) \<longrightarrow>
                 (\<forall>x. ?A' x \<or> in_uset ps x \<longrightarrow> of_int (hd c3) \<le> dotp (tl c3) x)
               \<and> (\<exists>x. (?A' x \<or> in_uset ps x) \<and> dotp (tl c3) x = of_int (hd c3)))"
        by blast
      have bb_iff: "\<And>q. bounded_below (tl c2) q \<longleftrightarrow> bounded_below (tl c) q"
        unfolding tl_c2 using bounded_below_scale[OF d] by blast
      have bb_p: "bounded_below (tl c) p"
        unfolding bounded_below_def using ok(3) mem by blast
      have mk: "mark_empty p = p" using xp(1) by (auto simp: mark_empty_def)
      have has_pt: "in_uset (p # ps) xp" using xp(1) mem by (simp add: in_uset_Cons)
      have tl_c3: "tl c3 = map (\<lambda>a. a * (d * K)) (tl c)"
        by (simp add: K(2) tl_c2 mult.assoc)
      have pos: "0 < d * K" using d K(1) by simp
      have A'_iff: "\<And>x. (?A' x \<or> in_uset ps x) \<longleftrightarrow> (A x \<or> in_uset (p # ps) x)"
        by (auto simp: in_uset_Cons)
      show ?thesis
        apply (rule exI[where x="d * K"])
        unfolding eq
        using pos tl_c3 K(3) K(4) K(5) bb_iff bb_p mk has_pt A'_iff by auto
    qed
  qed
qed


lemma bound_loop_left_early:
  assumes "\<forall>p \<in> set s. lp_exact lp p \<and> n_total p = nvar"
    and "length c = 1 + nvar"
    and "bound_loop lp (1 + nvar) s c first = (Left_early, s', c')"
  shows "\<exists>j < length s. \<not> bounded_below (tl c) (s ! j)
           \<and> (\<forall>i < j. bounded_below (tl c) (s ! i))
           \<and> s' = map mark_empty (take j s) @ drop j s"
  using assms
proof (induction s arbitrary: c first s' c')
  case Nil
  then show ?case by simp
next
  case (Cons p ps)
  have exact_p: "lp_exact lp p" and dim_p: "n_total p = nvar"
    and rest: "\<forall>p \<in> set ps. lp_exact lp p \<and> n_total p = nvar"
    using Cons.prems(1) by simp_all
  have len_c: "length c = 1 + nvar" by (rule Cons.prems(2))
  have len_f: "length (tl c) = n_total p" using len_c dim_p by simp
  note run = Cons.prems(3)
  have shift: "\<exists>j < length (p # ps). \<not> bounded_below (tl c) ((p # ps) ! j)
           \<and> (\<forall>i < j. bounded_below (tl c) ((p # ps) ! i))
           \<and> p' # s1 = map mark_empty (take j (p # ps)) @ drop j (p # ps)"
    if bb: "bounded_below (tl c) p" and mk: "mark_empty p = p'"
      and ih: "\<exists>j < length ps. \<not> bounded_below (tl c) (ps ! j)
           \<and> (\<forall>i < j. bounded_below (tl c) (ps ! i))
           \<and> s1 = map mark_empty (take j ps) @ drop j ps" for p' s1
  proof -
    from ih obtain j where j: "j < length ps" "\<not> bounded_below (tl c) (ps ! j)"
      "\<forall>i < j. bounded_below (tl c) (ps ! i)" "s1 = map mark_empty (take j ps) @ drop j ps"
      by blast
    have "\<forall>i < Suc j. bounded_below (tl c) ((p # ps) ! i)"
      using bb j(3) by (auto simp: less_Suc_eq_0_disj)
    then show ?thesis
      using j(1,2,4) mk by (intro exI[where x="Suc j"]) simp
  qed
  show ?case
  proof (cases "EMPTY \<in> flags p")
    case True
    obtain e1 s1 c1 where r1: "bound_loop lp (1 + nvar) ps c first = (e1, s1, c1)"
      by (metis prod_cases3)
    from run True r1 have eq: "e1 = Left_early" "s' = p # s1" by simp_all
    have bb: "bounded_below (tl c) p" using True by (simp add: bounded_below_def in_member_def)
    have mk: "mark_empty p = p" using True by (simp add: mark_empty_def)
    show ?thesis
      unfolding eq using shift[OF bb mk Cons.IH[OF rest len_c r1[unfolded eq(1)]]] .
  next
    case unflagged: False
    have mem: "\<And>x. in_member p x \<longleftrightarrow> satisfies p x"
      using unflagged by (simp add: in_member_def)
    show ?thesis
    proof (cases "lp p (tl c) True")
      case isl_lp_unbounded
      from run unflagged isl_lp_unbounded have eq: "s' = p # ps" by simp
      have "\<not> bounded_below (tl c) p"
      proof
        assume "bounded_below (tl c) p"
        then obtain m where m: "\<forall>x. in_member p x \<longrightarrow> m \<le> dotp (tl c) x"
          by (auto simp: bounded_below_def)
        from lp_exact_unbounded[OF exact_p len_f isl_lp_unbounded, of m]
        obtain x where "satisfies p x" "dotp (tl c) x < m" by blast
        with m mem show False by fastforce
      qed
      then show ?thesis unfolding eq by (intro exI[where x=0]) simp
    next
      case isl_lp_error
      with run unflagged show ?thesis by simp
    next
      case isl_lp_empty
      have nosat: "\<And>x. \<not> satisfies p x"
        using lp_exact_empty[OF exact_p len_f isl_lp_empty] by blast
      obtain e1 s1 c1 where r1: "bound_loop lp (1 + nvar) ps c first = (e1, s1, c1)"
        by (metis prod_cases3)
      from run unflagged isl_lp_empty r1
      have eq: "e1 = Left_early" "s' = p\<lparr>flags := insert EMPTY (flags p)\<rparr> # s1"
        by (simp_all add: isl_basic_map_set_to_empty_def)
      have bb: "bounded_below (tl c) p" using nosat by (simp add: bounded_below_def in_member_def)
      have mk: "mark_empty p = p\<lparr>flags := insert EMPTY (flags p)\<rparr>"
        using unflagged nosat by (simp add: mark_empty_def)
      show ?thesis
        unfolding eq using shift[OF bb mk Cons.IH[OF rest len_c r1[unfolded eq(1)]]] .
    next
      case (isl_lp_ok n d)
      note ok = lp_exact_ok[OF exact_p len_f isl_lp_ok]
      have d: "0 < d" by (rule ok(1))
      define c1 where "c1 = map (\<lambda>a. a * d) c"
      have c1_eq: "(if d \<noteq> 1 then isl_seq_scale c d (1 + nvar) else c) = c1"
        using len_c by (simp add: c1_def isl_seq_scale_full map_idI)
      define c2 where "c2 = (if first \<or> n < hd c1 then c1[0 := n] else c1)"
      obtain e1 s1 c3 where r1: "bound_loop lp (1 + nvar) ps c2 False = (e1, s1, c3)"
        by (metis prod_cases3)
      from run unflagged isl_lp_ok r1
      have eq: "e1 = Left_early" "s' = p # s1"
        unfolding bound_loop.simps c1_eq[symmetric] c2_def by (simp_all add: Let_def)
      have tl_c2: "tl c2 = map (\<lambda>a. a * d) (tl c)"
        by (simp add: c2_def tl_list_update0 c1_def map_tl)
      have len_c2: "length c2 = 1 + nvar" using len_c by (simp add: c2_def c1_def)
      have bb_iff: "\<And>q. bounded_below (tl c2) q \<longleftrightarrow> bounded_below (tl c) q"
        unfolding tl_c2 using bounded_below_scale[OF d] by blast
      have bb: "bounded_below (tl c) p"
        unfolding bounded_below_def using ok(3) mem by blast
      have mk: "mark_empty p = p" using ok(2) by (auto simp: mark_empty_def)
      show ?thesis
        unfolding eq
        using shift[OF bb mk Cons.IH[OF rest len_c2 r1[unfolded eq(1)], unfolded bb_iff]] .
    qed
  qed
qed

lemma bound_loop_failed:
  assumes "\<forall>p \<in> set s. lp_exact lp p \<and> n_total p = nvar"
    and "length c = 1 + nvar"
    and "bound_loop lp (1 + nvar) s c first = (Failed, s', c')"
  shows "\<exists>j < length s. EMPTY \<notin> flags (s ! j) \<and> lp (s ! j) (tl c') True = isl_lp_error
           \<and> (\<forall>i < j. bounded_below (tl c) (s ! i))
           \<and> s' = map mark_empty (take j s) @ drop j s"
  using assms
proof (induction s arbitrary: c first s' c')
  case Nil
  then show ?case by simp
next
  case (Cons p ps)
  have exact_p: "lp_exact lp p" and dim_p: "n_total p = nvar"
    and rest: "\<forall>p \<in> set ps. lp_exact lp p \<and> n_total p = nvar"
    using Cons.prems(1) by simp_all
  have len_c: "length c = 1 + nvar" by (rule Cons.prems(2))
  have len_f: "length (tl c) = n_total p" using len_c dim_p by simp
  note run = Cons.prems(3)
  have shift: "\<exists>j < length (p # ps). EMPTY \<notin> flags ((p # ps) ! j)
           \<and> lp ((p # ps) ! j) (tl c') True = isl_lp_error
           \<and> (\<forall>i < j. bounded_below (tl c) ((p # ps) ! i))
           \<and> p' # s1 = map mark_empty (take j (p # ps)) @ drop j (p # ps)"
    if bb: "bounded_below (tl c) p" and mk: "mark_empty p = p'"
      and ih: "\<exists>j < length ps. EMPTY \<notin> flags (ps ! j)
           \<and> lp (ps ! j) (tl c') True = isl_lp_error
           \<and> (\<forall>i < j. bounded_below (tl c) (ps ! i))
           \<and> s1 = map mark_empty (take j ps) @ drop j ps" for p' s1
  proof -
    from ih obtain j where j: "j < length ps" "EMPTY \<notin> flags (ps ! j)"
      "lp (ps ! j) (tl c') True = isl_lp_error"
      "\<forall>i < j. bounded_below (tl c) (ps ! i)" "s1 = map mark_empty (take j ps) @ drop j ps"
      by blast
    have "\<forall>i < Suc j. bounded_below (tl c) ((p # ps) ! i)"
      using bb j(4) by (auto simp: less_Suc_eq_0_disj)
    then show ?thesis
      using j(1,2,3,5) mk by (intro exI[where x="Suc j"]) simp
  qed
  show ?case
  proof (cases "EMPTY \<in> flags p")
    case True
    obtain e1 s1 c1 where r1: "bound_loop lp (1 + nvar) ps c first = (e1, s1, c1)"
      by (metis prod_cases3)
    from run True r1 have eq: "e1 = Failed" "s' = p # s1" "c1 = c'" by simp_all
    have bb: "bounded_below (tl c) p" using True by (simp add: bounded_below_def in_member_def)
    have mk: "mark_empty p = p" using True by (simp add: mark_empty_def)
    show ?thesis
      unfolding eq using shift[OF bb mk Cons.IH[OF rest len_c r1[unfolded eq(1,3)]]] .
  next
    case unflagged: False
    have mem: "\<And>x. in_member p x \<longleftrightarrow> satisfies p x"
      using unflagged by (simp add: in_member_def)
    show ?thesis
    proof (cases "lp p (tl c) True")
      case isl_lp_unbounded
      with run unflagged show ?thesis by simp
    next
      case isl_lp_error
      from run unflagged isl_lp_error have eq: "s' = p # ps" "c' = c" by simp_all
      show ?thesis unfolding eq using unflagged isl_lp_error by (intro exI[where x=0]) simp
    next
      case isl_lp_empty
      have nosat: "\<And>x. \<not> satisfies p x"
        using lp_exact_empty[OF exact_p len_f isl_lp_empty] by blast
      obtain e1 s1 c1 where r1: "bound_loop lp (1 + nvar) ps c first = (e1, s1, c1)"
        by (metis prod_cases3)
      from run unflagged isl_lp_empty r1
      have eq: "e1 = Failed" "s' = p\<lparr>flags := insert EMPTY (flags p)\<rparr> # s1" "c1 = c'"
        by (simp_all add: isl_basic_map_set_to_empty_def)
      have bb: "bounded_below (tl c) p" using nosat by (simp add: bounded_below_def in_member_def)
      have mk: "mark_empty p = p\<lparr>flags := insert EMPTY (flags p)\<rparr>"
        using unflagged nosat by (simp add: mark_empty_def)
      show ?thesis
        unfolding eq using shift[OF bb mk Cons.IH[OF rest len_c r1[unfolded eq(1,3)]]] .
    next
      case (isl_lp_ok n d)
      note ok = lp_exact_ok[OF exact_p len_f isl_lp_ok]
      have d: "0 < d" by (rule ok(1))
      define c1 where "c1 = map (\<lambda>a. a * d) c"
      have c1_eq: "(if d \<noteq> 1 then isl_seq_scale c d (1 + nvar) else c) = c1"
        using len_c by (simp add: c1_def isl_seq_scale_full map_idI)
      define c2 where "c2 = (if first \<or> n < hd c1 then c1[0 := n] else c1)"
      obtain e1 s1 c3 where r1: "bound_loop lp (1 + nvar) ps c2 False = (e1, s1, c3)"
        by (metis prod_cases3)
      from run unflagged isl_lp_ok r1
      have eq: "e1 = Failed" "s' = p # s1" "c3 = c'"
        unfolding bound_loop.simps c1_eq[symmetric] c2_def by (simp_all add: Let_def)
      have tl_c2: "tl c2 = map (\<lambda>a. a * d) (tl c)"
        by (simp add: c2_def tl_list_update0 c1_def map_tl)
      have len_c2: "length c2 = 1 + nvar" using len_c by (simp add: c2_def c1_def)
      have bb_iff: "\<And>q. bounded_below (tl c2) q \<longleftrightarrow> bounded_below (tl c) q"
        unfolding tl_c2 using bounded_below_scale[OF d] by blast
      have bb: "bounded_below (tl c) p"
        unfolding bounded_below_def using ok(3) mem by blast
      have mk: "mark_empty p = p" using ok(2) by (auto simp: mark_empty_def)
      show ?thesis
        unfolding eq
        using shift[OF bb mk Cons.IH[OF rest len_c2 r1[unfolded eq(1,3)], unfolded bb_iff]] .
    qed
  qed
qed

text \<open>
  Claim C5. With an exact LP solver on every member, \<open>uset_is_bound\<close> returns -1
  only when the solver reports an error on a member that the loop has reached (the
  members before it have been visited and the objective is bounded below on them). So
  when the solver reports no error, the function returns 1 exactly when the objective
  \<open>c[1..] \<cdot> x\<close> is bounded below on every member that has a point and is not flagged
  empty. It returns 0 at the first member on which the objective is unbounded: the
  members before it have been visited, those after it are untouched. On success the
  members without a point have been flagged empty, the coefficients are the given ones
  scaled by a positive integer (the product of the denominators met), and the constant
  is the negated minimum of the scaled objective over the set: the stored row is
  non-negative on every point of the set and zero at some point, if the set has one.
\<close>

theorem uset_is_bound_correct:
  assumes exact: "\<forall>p \<in> set s. lp_exact lp p \<and> n_total p = nvar"
    and len: "length c = 1 + nvar"
    and run: "uset_is_bound lp s c (1 + nvar) = (r, s', c')"
  shows "r \<in> {-1, 0, 1}
     \<and> (r = -1 \<longrightarrow> (\<exists>j < length s. EMPTY \<notin> flags (s ! j)
           \<and> lp (s ! j) (tl c') True = isl_lp_error
           \<and> (\<exists>K>0. tl c' = map (\<lambda>a. a * K) (tl c))
           \<and> (\<forall>i < j. bounded_below (tl c) (s ! i))
           \<and> s' = map mark_empty (take j s) @ drop j s))
     \<and> (r = 0 \<longrightarrow> (\<exists>j < length s. \<not> bounded_below (tl c) (s ! j)
           \<and> (\<exists>K>0. tl c' = map (\<lambda>a. a * K) (tl c))
           \<and> (\<forall>i < j. bounded_below (tl c) (s ! i))
           \<and> s' = map mark_empty (take j s) @ drop j s))
     \<and> (r = 1 \<longrightarrow> (\<forall>p \<in> set s. bounded_below (tl c) p)
          \<and> s' = map mark_empty s
          \<and> (\<exists>K>0. tl c' = map (\<lambda>a. a * K) (tl c))
          \<and> (\<forall>x. in_uset s x \<longrightarrow> 0 \<le> row_val c' x)
          \<and> ((\<exists>x. in_uset s x) \<longrightarrow> (\<exists>x. in_uset s x \<and> row_val c' x = 0)))
     \<and> ((\<forall>p \<in> set s. \<forall>f. lp p f True \<noteq> isl_lp_error) \<longrightarrow>
           r \<noteq> -1 \<and> (r = 1 \<longleftrightarrow> (\<forall>p \<in> set s. bounded_below (tl c) p)))"
proof -
  obtain e s1 c1 where loop: "bound_loop lp (1 + nvar) s c True = (e, s1, c1)"
    by (metis prod_cases3)
  have p4: "True \<longrightarrow> (\<forall>x::rat list. \<not> (\<lambda>x. False) x)" by simp
  have p5: "\<not> True \<longrightarrow> (\<forall>x. (\<lambda>x. False) x \<longrightarrow> of_int (hd c) \<le> dotp (tl c) x)
           \<and> (\<exists>x. (\<lambda>x. False) x \<and> dotp (tl c) x = of_int (hd c))" by simp
  have inv: "\<exists>K>0. tl c1 = map (\<lambda>a. a * K) (tl c) \<and> length c1 = 1 + nvar
     \<and> (e = Left_early \<longrightarrow> (\<exists>p \<in> set s. \<not> bounded_below (tl c) p))
     \<and> (e = Completed \<longrightarrow> (\<forall>p \<in> set s. bounded_below (tl c) p) \<and> s1 = map mark_empty s
       \<and> ((\<forall>x. \<not> in_uset s x) \<longrightarrow> c1 = c)
       \<and> ((\<exists>x. in_uset s x) \<longrightarrow>
             (\<forall>x. in_uset s x \<longrightarrow> of_int (hd c1) \<le> dotp (tl c1) x)
           \<and> (\<exists>x. in_uset s x \<and> dotp (tl c1) x = of_int (hd c1))))"
    using bound_loop_inv[OF exact len loop p4 p5] by simp
  then obtain K where K: "0 < K" "tl c1 = map (\<lambda>a. a * K) (tl c)" "length c1 = 1 + nvar"
    "e = Left_early \<longrightarrow> (\<exists>p \<in> set s. \<not> bounded_below (tl c) p)"
    "e = Completed \<longrightarrow> (\<forall>p \<in> set s. bounded_below (tl c) p) \<and> s1 = map mark_empty s
       \<and> ((\<forall>x. \<not> in_uset s x) \<longrightarrow> c1 = c)
       \<and> ((\<exists>x. in_uset s x) \<longrightarrow>
             (\<forall>x. in_uset s x \<longrightarrow> of_int (hd c1) \<le> dotp (tl c1) x)
           \<and> (\<exists>x. in_uset s x \<and> dotp (tl c1) x = of_int (hd c1)))"
    by blast
  have c1_ne: "c1 \<noteq> []" using K(3) by auto
  have rv: "\<And>x. row_val (c1[0 := - hd c1]) x = dotp (tl c1) x - of_int (hd c1)"
    using c1_ne by (simp add: row_val_def hd_list_update0 tl_list_update0)
  show ?thesis
  proof (cases e)
    case Completed
    with run loop have res: "r = 1" "s' = s1" "c' = c1[0 := - hd c1]"
      by (simp_all add: uset_is_bound_def)
    have tl: "tl c' = map (\<lambda>a. a * K) (tl c)" by (simp add: res tl_list_update0 K(2))
    have all_bb: "\<forall>p \<in> set s. bounded_below (tl c) p" and s1: "s1 = map mark_empty s"
      using K(5) Completed by simp_all
    have valid: "\<forall>x. in_uset s x \<longrightarrow> 0 \<le> row_val c' x"
      using K(5) Completed unfolding res rv by fastforce
    have tight: "(\<exists>x. in_uset s x) \<longrightarrow> (\<exists>x. in_uset s x \<and> row_val c' x = 0)"
      using K(5) Completed unfolding res rv by fastforce
    show ?thesis using res(1,2) s1 all_bb tl K(1) valid tight by auto
  next
    case Left_early
    with run loop have res: "r = 0" "s' = s1" "c' = c1[0 := - hd c1]"
      by (simp_all add: uset_is_bound_def)
    have scale: "\<exists>K>0. tl c' = map (\<lambda>a. a * K) (tl c)"
      using K(1,2) by (auto simp: res(3) tl_list_update0)
    have "\<exists>j < length s. \<not> bounded_below (tl c) (s ! j)
           \<and> (\<forall>i < j. bounded_below (tl c) (s ! i))
           \<and> s' = map mark_empty (take j s) @ drop j s"
      unfolding res(2) using bound_loop_left_early[OF exact len loop[unfolded Left_early]] .
    then show ?thesis using K(4) Left_early res(1) scale by auto
  next
    case Failed
    with run loop have res: "r = -1" "s' = s1" "c' = c1" by (simp_all add: uset_is_bound_def)
    have stop: "\<exists>j < length s. EMPTY \<notin> flags (s ! j) \<and> lp (s ! j) (tl c') True = isl_lp_error
           \<and> (\<forall>i < j. bounded_below (tl c) (s ! i))
           \<and> s' = map mark_empty (take j s) @ drop j s"
      unfolding res using bound_loop_failed[OF exact len loop[unfolded Failed]] .
    have scale: "\<exists>K>0. tl c' = map (\<lambda>a. a * K) (tl c)"
      unfolding res using K(1,2) by blast
    have noerr: "\<not> (\<forall>p \<in> set s. \<forall>f. lp p f True \<noteq> isl_lp_error)"
      using stop by (metis nth_mem)
    show ?thesis using res(1) stop scale noerr by auto
  qed
qed

text \<open>
  Claim C5, witness: the set \<open>{2x \<ge> 1} \<union> {x \<ge> 3}\<close> and the direction \<open>x\<close>. The
  first LP returns \<open>1/2\<close>, so the row is scaled by 2; the result is \<open>2x - 1 \<ge> 0\<close>,
  tight at \<open>x = 1/2\<close>. In the direction \<open>-x\<close> the set \<open>{2x \<ge> 1}\<close> is unbounded and
  the answer is 0. On the point \<open>x = 0\<close> the solver for halflines reports an error and
  the answer is -1.
\<close>

theorem uset_is_bound_witness:
  "lp_exact lp_halfline (halfline 1 2) \<and> lp_exact lp_halfline (halfline 3 1)
   \<and> uset_is_bound lp_halfline [halfline 1 2, halfline 3 1] [7, 1] (1 + 1)
        = (1, [halfline 1 2, halfline 3 1], [-1, 2])
   \<and> bounded_below [1] (halfline 1 2) \<and> bounded_below [1] (halfline 3 1)
   \<and> 0 \<le> row_val [-1, 2] [3]
   \<and> in_uset [halfline 1 2, halfline 3 1] [1 / 2] \<and> row_val [-1, 2] [1 / 2] = 0
   \<and> uset_is_bound lp_halfline [halfline 1 2] [7, -1] (1 + 1) = (0, [halfline 1 2], [-7, -1])
   \<and> \<not> bounded_below [-1] (halfline 1 2)
   \<and> lp_exact lp_halfline origin_1d
   \<and> uset_is_bound lp_halfline [origin_1d] [7, 1] (1 + 1) = (-1, [origin_1d], [7, 1])
   \<and> lp_halfline origin_1d [1] True = isl_lp_error"
proof -
  have ex: "\<forall>p \<in> set [halfline 1 2, halfline 3 1]. lp_exact lp_halfline p \<and> n_total p = 1"
    using lp_halfline_exact[of 2 1] lp_halfline_exact[of 1 3] by (simp add: halfline_def)
  have len: "length [7, 1 :: int] = 1 + 1" by simp
  have run: "uset_is_bound lp_halfline [halfline 1 2, halfline 3 1] [7, 1] (1 + 1)
        = (1, [halfline 1 2, halfline 3 1], [-1, 2])"
    by (simp add: uset_is_bound_def halfline_def lp_halfline_def isl_seq_scale_def)
  have valid: "\<forall>x. in_uset [halfline 1 2, halfline 3 1] x \<longrightarrow> 0 \<le> row_val [-1, 2] x"
    using uset_is_bound_correct[OF ex len run] by blast
  have pt: "in_uset [halfline 1 2, halfline 3 1] [1 / 2]"
    by (simp add: in_uset_def in_member_def satisfies_def halfline_def row_val_def)
  have bb: "bounded_below [1] (halfline 1 2) \<and> bounded_below [1] (halfline 3 1)"
    using uset_is_bound_correct[OF ex len run] by simp
  have pt3: "in_uset [halfline 1 2, halfline 3 1] [3]"
    by (simp add: in_uset_def in_member_def satisfies_def halfline_def row_val_def)
  have v3: "0 \<le> row_val [-1, 2] [3]" using valid pt3 by blast
  have tight: "row_val [-1, 2] [1 / 2] = 0" by (simp add: row_val_def)
  have ex0: "\<forall>p \<in> set [halfline 1 2]. lp_exact lp_halfline p \<and> n_total p = 1"
    using ex by simp
  have len0: "length [7, -1 :: int] = 1 + 1" by simp
  have run0: "uset_is_bound lp_halfline [halfline 1 2] [7, -1] (1 + 1)
        = (0, [halfline 1 2], [-7, -1])"
    by (simp add: uset_is_bound_def halfline_def lp_halfline_def isl_seq_scale_def)
  have "\<exists>j < length [halfline 1 2]. \<not> bounded_below (tl [7, -1]) ([halfline 1 2] ! j)"
    using uset_is_bound_correct[OF ex0 len0 run0] by blast
  then have unb: "\<not> bounded_below [-1] (halfline 1 2)" by simp
  have exo: "lp_exact lp_halfline origin_1d"
    by (simp add: lp_exact_def lp_halfline_def origin_1d_def)
  have ex1: "\<forall>p \<in> set [origin_1d]. lp_exact lp_halfline p \<and> n_total p = 1"
    using exo by (simp add: origin_1d_def)
  have run1: "uset_is_bound lp_halfline [origin_1d] [7, 1] (1 + 1) = (-1, [origin_1d], [7, 1])"
    by (simp add: uset_is_bound_def origin_1d_def lp_halfline_def)
  have "\<exists>j < length [origin_1d]. lp_halfline ([origin_1d] ! j) (tl [7, 1]) True = isl_lp_error"
    using uset_is_bound_correct[OF ex1 len run1] by blast
  then have err: "lp_halfline origin_1d [1] True = isl_lp_error" by simp
  show ?thesis using ex run bb v3 pt tight run0 unb exo run1 err by simp
qed

subsection \<open>The one-dimensional hull\<close>

lemma cross_pp:
  fixes a0 a1 b0 b1 :: int
  assumes "0 < a1" "0 < b1"
  shows "a0 * b1 < a1 * b0 \<longleftrightarrow> (- of_int b0 / of_int b1 :: rat) < - of_int a0 / of_int a1"
proof -
  have "(- of_int b0 / of_int b1 :: rat) < - of_int a0 / of_int a1
        \<longleftrightarrow> (of_int (a0 * b1) :: rat) < of_int (a1 * b0)"
    using assms by (simp add: field_simps)
  then show ?thesis by (simp only: of_int_less_iff)
qed

lemma cross_pn:
  fixes a0 a1 b0 b1 :: int
  assumes "0 < a1" "b1 < 0"
  shows "a1 * b0 < a0 * b1 \<longleftrightarrow> (- of_int b0 / of_int b1 :: rat) < - of_int a0 / of_int a1"
proof -
  have "(- of_int b0 / of_int b1 :: rat) < - of_int a0 / of_int a1
        \<longleftrightarrow> (of_int (a1 * b0) :: rat) < of_int (a0 * b1)"
    using assms by (simp add: field_simps)
  then show ?thesis by (simp only: of_int_less_iff)
qed

lemma cross_nn:
  fixes a0 a1 b0 b1 :: int
  assumes "a1 < 0" "b1 < 0"
  shows "a1 * b0 < a0 * b1 \<longleftrightarrow> (- of_int a0 / of_int a1 :: rat) < - of_int b0 / of_int b1"
proof -
  have "(- of_int a0 / of_int a1 :: rat) < - of_int b0 / of_int b1
        \<longleftrightarrow> (of_int (a1 * b0) :: rat) < of_int (a0 * b1)"
    using assms by (simp add: field_simps)
  then show ?thesis by (simp only: of_int_less_iff)
qed

lemma cross_np:
  fixes a0 a1 b0 b1 :: int
  assumes "a1 < 0" "0 < b1"
  shows "a0 * b1 < a1 * b0 \<longleftrightarrow> (- of_int a0 / of_int a1 :: rat) < - of_int b0 / of_int b1"
proof -
  have "(- of_int a0 / of_int a1 :: rat) < - of_int b0 / of_int b1
        \<longleftrightarrow> (of_int (a0 * b1) :: rat) < of_int (a1 * b0)"
    using assms by (simp add: field_simps)
  then show ?thesis by (simp only: of_int_less_iff)
qed

lemma bound_val_cpy: "bound_val (isl_seq_cpy r 2) = bound_val r"
  by (simp add: bound_val_def isl_seq_cpy_def)

lemma bound_val_neg: "length r = 2 \<Longrightarrow> bound_val (isl_seq_neg r 2) = bound_val r"
  by (simp add: bound_val_def isl_seq_neg_def)

lemma coeff_cpy: "isl_seq_cpy r 2 ! 1 = r ! 1" "isl_seq_cpy r 2 ! Suc 0 = r ! Suc 0"
  by (simp_all add: isl_seq_cpy_def)

lemma coeff_neg:
  "length r = 2 \<Longrightarrow> isl_seq_neg r 2 ! 1 = - (r ! 1)"
  "length r = 2 \<Longrightarrow> isl_seq_neg r 2 ! Suc 0 = - (r ! Suc 0)"
  by (simp_all add: isl_seq_neg_def)


lemma least_lower_refl: "0 < lo ! 1 \<Longrightarrow> least_lower lo [] lo"
  by (simp add: least_lower_def)

lemma least_lower_trans:
  "least_lower lo A lo1 \<Longrightarrow> least_lower lo1 B lo2 \<Longrightarrow> least_lower lo (A @ B) lo2"
  unfolding least_lower_def list_all_iff list_ex_iff by (auto; force)

lemma greatest_upper_refl: "up ! 1 < 0 \<Longrightarrow> greatest_upper up [] up"
  by (simp add: greatest_upper_def)

lemma greatest_upper_trans:
  "greatest_upper up A up1 \<Longrightarrow> greatest_upper up1 B up2 \<Longrightarrow> greatest_upper up (A @ B) up2"
  unfolding greatest_upper_def list_all_iff list_ex_iff by (auto; force)

lemma merge_ineq_lower_None: "lower st = None \<Longrightarrow> lower (merge_ineq st r) = None"
  by (simp add: merge_ineq_def Let_def split: option.splits)

lemma merge_ineq_upper_None: "upper st = None \<Longrightarrow> upper (merge_ineq st r) = None"
  by (simp add: merge_ineq_def Let_def split: option.splits)

lemma merge_ineq_has_lower: "has_lower (merge_ineq st r) \<longleftrightarrow> has_lower st \<or> 0 < r ! 1"
  by (simp add: merge_ineq_def Let_def split: option.splits)

lemma merge_ineq_has_upper: "has_upper (merge_ineq st r) \<longleftrightarrow> has_upper st \<or> r ! 1 < 0"
  by (simp add: merge_ineq_def Let_def split: option.splits)

lemma merge_ineq_lower:
  assumes "lower st = Some lo" "0 < lo ! 1"
  shows "\<exists>lo'. lower (merge_ineq st r) = Some lo'
           \<and> least_lower lo (filter (\<lambda>r. 0 < r ! 1) [r]) lo'"
proof (cases "0 < r ! 1")
  case False
  then have "lower (merge_ineq st r) = Some lo"
    using assms by (simp add: merge_ineq_def Let_def split: option.splits)
  then show ?thesis using False assms(2) by (simp add: least_lower_refl)
next
  case True
  note cmp = cross_pp[OF assms(2) True, of "lo ! 0" "r ! 0", folded bound_val_def]
  show ?thesis
  proof (cases "lo ! 0 * r ! 1 < lo ! 1 * r ! 0")
    case lt: True
    then have "lower (merge_ineq st r) = Some (isl_seq_cpy r 2)"
      using assms True by (simp add: merge_ineq_def Let_def split: option.splits)
    moreover have "least_lower lo [r] (isl_seq_cpy r 2)"
      using lt cmp True by (simp add: least_lower_def bound_val_cpy coeff_cpy)
    ultimately show ?thesis using True by simp
  next
    case ge: False
    then have "lower (merge_ineq st r) = Some lo"
      using assms True by (simp add: merge_ineq_def Let_def split: option.splits)
    moreover have "least_lower lo [r] lo"
      using ge cmp assms(2) by (simp add: least_lower_def)
    ultimately show ?thesis using True by simp
  qed
qed

lemma merge_ineq_upper:
  assumes "upper st = Some up" "up ! 1 < 0"
  shows "\<exists>up'. upper (merge_ineq st r) = Some up'
           \<and> greatest_upper up (filter (\<lambda>r. r ! 1 < 0) [r]) up'"
proof (cases "r ! 1 < 0")
  case False
  then have "upper (merge_ineq st r) = Some up"
    using assms by (simp add: merge_ineq_def Let_def split: option.splits)
  then show ?thesis using False assms(2) by (simp add: greatest_upper_refl)
next
  case True
  note cmp = cross_nn[OF assms(2) True, of "r ! 0" "up ! 0", folded bound_val_def]
  show ?thesis
  proof (cases "up ! 1 * r ! 0 < up ! 0 * r ! 1")
    case lt: True
    then have "upper (merge_ineq st r) = Some (isl_seq_cpy r 2)"
      using assms True by (simp add: merge_ineq_def Let_def split: option.splits)
    moreover have "greatest_upper up [r] (isl_seq_cpy r 2)"
      using lt cmp True by (simp add: greatest_upper_def bound_val_cpy coeff_cpy)
    ultimately show ?thesis using True by simp
  next
    case ge: False
    then have "upper (merge_ineq st r) = Some up"
      using assms True by (simp add: merge_ineq_def Let_def split: option.splits)
    moreover have "greatest_upper up [r] up"
      using ge cmp assms(2) by (simp add: greatest_upper_def)
    ultimately show ?thesis using True by simp
  qed
qed


lemma merge_eq_lower_None: "lower st = None \<Longrightarrow> lower (merge_eq st e) = None"
  by (simp add: merge_eq_def Let_def split: option.splits)

lemma merge_eq_upper_None: "upper st = None \<Longrightarrow> upper (merge_eq st e) = None"
  by (simp add: merge_eq_def Let_def split: option.splits)

lemma merge_eq_has: "has_lower (merge_eq st e)" "has_upper (merge_eq st e)"
  by (simp_all add: merge_eq_def Let_def split: option.splits)

lemma merge_eq_lower:
  assumes st: "lower st = Some lo" and lo: "0 < lo ! 1" and e: "length e = 2" "e ! 1 \<noteq> 0"
  shows "\<exists>lo'. lower (merge_eq st e) = Some lo' \<and> least_lower lo [e] lo'"
proof -
  define a where "a = lo ! 0 * e ! 1"
  define b where "b = lo ! 1 * e ! 0"
  have res: "lower (merge_eq st e) =
      Some (if b < a \<and> e ! 1 < 0 then isl_seq_neg e 2
            else if a < b \<and> 0 < e ! 1 then isl_seq_cpy e 2 else lo)"
    using st by (simp add: merge_eq_def Let_def a_def b_def split: option.splits)
  show ?thesis
  proof (cases "0 < e ! 1")
    case pos: True
    note cmp = cross_pp[OF lo pos, of "lo ! 0" "e ! 0", folded bound_val_def a_def b_def]
    show ?thesis
      unfolding res using pos cmp lo
      by (auto simp: least_lower_def bound_val_cpy coeff_cpy)
  next
    case False
    then have neg: "e ! 1 < 0" using e(2) by simp
    note cmp = cross_pn[OF lo neg, of "e ! 0" "lo ! 0", folded bound_val_def a_def b_def]
    show ?thesis
      unfolding res using neg cmp lo e(1)
      by (auto simp: least_lower_def bound_val_neg coeff_neg)
  qed
qed

lemma merge_eq_upper:
  assumes st: "upper st = Some up" and up: "up ! 1 < 0" and e: "length e = 2" "e ! 1 \<noteq> 0"
  shows "\<exists>up'. upper (merge_eq st e) = Some up' \<and> greatest_upper up [e] up'"
proof -
  define a where "a = up ! 0 * e ! 1"
  define b where "b = up ! 1 * e ! 0"
  have res: "upper (merge_eq st e) =
      Some (if b < a \<and> e ! 1 < 0 then isl_seq_cpy e 2
            else if a < b \<and> 0 < e ! 1 then isl_seq_neg e 2 else up)"
    using st by (simp add: merge_eq_def Let_def a_def b_def split: option.splits)
  show ?thesis
  proof (cases "0 < e ! 1")
    case pos: True
    note cmp = cross_np[OF up pos, of "up ! 0" "e ! 0", folded bound_val_def a_def b_def]
    show ?thesis
      unfolding res using pos cmp up e(1)
      by (auto simp: greatest_upper_def bound_val_neg coeff_neg)
  next
    case False
    then have neg: "e ! 1 < 0" using e(2) by simp
    note cmp = cross_nn[OF up neg, of "e ! 0" "up ! 0", folded bound_val_def a_def b_def]
    show ?thesis
      unfolding res using neg cmp up
      by (auto simp: greatest_upper_def bound_val_cpy coeff_cpy)
  qed
qed

lemma least_lower_pos: "least_lower lo rs lo' \<Longrightarrow> 0 < lo' ! 1"
  by (simp add: least_lower_def)

lemma greatest_upper_neg: "greatest_upper up rs up' \<Longrightarrow> up' ! 1 < 0"
  by (simp add: greatest_upper_def)

lemma fold_ineq_lower:
  assumes "lower st = Some lo" "0 < lo ! 1"
  shows "\<exists>lo'. lower (foldl merge_ineq st rs) = Some lo'
           \<and> least_lower lo (filter (\<lambda>r. 0 < r ! 1) rs) lo'"
  using assms
proof (induction rs arbitrary: st lo)
  case Nil
  then show ?case by (simp add: least_lower_refl)
next
  case (Cons r rs)
  from merge_ineq_lower[OF Cons.prems] obtain lo1
    where 1: "lower (merge_ineq st r) = Some lo1"
      "least_lower lo (filter (\<lambda>r. 0 < r ! 1) [r]) lo1" by blast
  from Cons.IH[OF 1(1) least_lower_pos[OF 1(2)]] obtain lo2
    where 2: "lower (foldl merge_ineq (merge_ineq st r) rs) = Some lo2"
      "least_lower lo1 (filter (\<lambda>r. 0 < r ! 1) rs) lo2" by blast
  have "least_lower lo (filter (\<lambda>r. 0 < r ! 1) (r # rs)) lo2"
    using least_lower_trans[OF 1(2) 2(2)] by (cases "0 < r ! 1") simp_all
  then show ?case using 2(1) by simp
qed

lemma fold_ineq_upper:
  assumes "upper st = Some up" "up ! 1 < 0"
  shows "\<exists>up'. upper (foldl merge_ineq st rs) = Some up'
           \<and> greatest_upper up (filter (\<lambda>r. r ! 1 < 0) rs) up'"
  using assms
proof (induction rs arbitrary: st up)
  case Nil
  then show ?case by (simp add: greatest_upper_refl)
next
  case (Cons r rs)
  from merge_ineq_upper[OF Cons.prems] obtain up1
    where 1: "upper (merge_ineq st r) = Some up1"
      "greatest_upper up (filter (\<lambda>r. r ! 1 < 0) [r]) up1" by blast
  from Cons.IH[OF 1(1) greatest_upper_neg[OF 1(2)]] obtain up2
    where 2: "upper (foldl merge_ineq (merge_ineq st r) rs) = Some up2"
      "greatest_upper up1 (filter (\<lambda>r. r ! 1 < 0) rs) up2" by blast
  have "greatest_upper up (filter (\<lambda>r. r ! 1 < 0) (r # rs)) up2"
    using greatest_upper_trans[OF 1(2) 2(2)] by (cases "r ! 1 < 0") simp_all
  then show ?case using 2(1) by simp
qed

lemma fold_eq_lower:
  assumes "lower st = Some lo" "0 < lo ! 1" "\<forall>e \<in> set es. length e = 2 \<and> e ! 1 \<noteq> 0"
  shows "\<exists>lo'. lower (foldl merge_eq st es) = Some lo' \<and> least_lower lo es lo'"
  using assms
proof (induction es arbitrary: st lo)
  case Nil
  then show ?case by (simp add: least_lower_refl)
next
  case (Cons e es)
  have e: "length e = 2" "e ! 1 \<noteq> 0" and es: "\<forall>e \<in> set es. length e = 2 \<and> e ! 1 \<noteq> 0"
    using Cons.prems(3) by simp_all
  from merge_eq_lower[OF Cons.prems(1,2) e] obtain lo1
    where 1: "lower (merge_eq st e) = Some lo1" "least_lower lo [e] lo1" by blast
  from Cons.IH[OF 1(1) least_lower_pos[OF 1(2)] es] obtain lo2
    where 2: "lower (foldl merge_eq (merge_eq st e) es) = Some lo2"
      "least_lower lo1 es lo2" by blast
  have "least_lower lo (e # es) lo2" using least_lower_trans[OF 1(2) 2(2)] by simp
  then show ?case using 2(1) by simp
qed

lemma fold_eq_upper:
  assumes "upper st = Some up" "up ! 1 < 0" "\<forall>e \<in> set es. length e = 2 \<and> e ! 1 \<noteq> 0"
  shows "\<exists>up'. upper (foldl merge_eq st es) = Some up' \<and> greatest_upper up es up'"
  using assms
proof (induction es arbitrary: st up)
  case Nil
  then show ?case by (simp add: greatest_upper_refl)
next
  case (Cons e es)
  have e: "length e = 2" "e ! 1 \<noteq> 0" and es: "\<forall>e \<in> set es. length e = 2 \<and> e ! 1 \<noteq> 0"
    using Cons.prems(3) by simp_all
  from merge_eq_upper[OF Cons.prems(1,2) e] obtain up1
    where 1: "upper (merge_eq st e) = Some up1" "greatest_upper up [e] up1" by blast
  from Cons.IH[OF 1(1) greatest_upper_neg[OF 1(2)] es] obtain up2
    where 2: "upper (foldl merge_eq (merge_eq st e) es) = Some up2"
      "greatest_upper up1 es up2" by blast
  have "greatest_upper up (e # es) up2" using greatest_upper_trans[OF 1(2) 2(2)] by simp
  then show ?case using 2(1) by simp
qed

lemma fold_None:
  "lower st = None \<Longrightarrow> lower (foldl merge_eq st es) = None"
  "upper st = None \<Longrightarrow> upper (foldl merge_eq st es) = None"
  "lower st = None \<Longrightarrow> lower (foldl merge_ineq st rs) = None"
  "upper st = None \<Longrightarrow> upper (foldl merge_ineq st rs) = None"
proof -
  show "lower st = None \<Longrightarrow> lower (foldl merge_eq st es) = None"
    by (induction es arbitrary: st) (simp_all add: merge_eq_lower_None)
  show "upper st = None \<Longrightarrow> upper (foldl merge_eq st es) = None"
    by (induction es arbitrary: st) (simp_all add: merge_eq_upper_None)
  show "lower st = None \<Longrightarrow> lower (foldl merge_ineq st rs) = None"
    by (induction rs arbitrary: st) (simp_all add: merge_ineq_lower_None)
  show "upper st = None \<Longrightarrow> upper (foldl merge_ineq st rs) = None"
    by (induction rs arbitrary: st) (simp_all add: merge_ineq_upper_None)
qed

lemma fold_has_eq:
  "has_lower (foldl merge_eq st es) \<longleftrightarrow> has_lower st \<or> es \<noteq> []"
  "has_upper (foldl merge_eq st es) \<longleftrightarrow> has_upper st \<or> es \<noteq> []"
proof -
  show "has_lower (foldl merge_eq st es) \<longleftrightarrow> has_lower st \<or> es \<noteq> []"
    by (induction es arbitrary: st) (simp_all add: merge_eq_has)
  show "has_upper (foldl merge_eq st es) \<longleftrightarrow> has_upper st \<or> es \<noteq> []"
    by (induction es arbitrary: st) (simp_all add: merge_eq_has)
qed

lemma fold_has_ineq:
  "has_lower (foldl merge_ineq st rs) \<longleftrightarrow> has_lower st \<or> filter (\<lambda>r. 0 < r ! 1) rs \<noteq> []"
  "has_upper (foldl merge_ineq st rs) \<longleftrightarrow> has_upper st \<or> filter (\<lambda>r. r ! 1 < 0) rs \<noteq> []"
proof -
  show "has_lower (foldl merge_ineq st rs) \<longleftrightarrow> has_lower st \<or> filter (\<lambda>r. 0 < r ! 1) rs \<noteq> []"
    by (induction rs arbitrary: st) (auto simp: merge_ineq_has_lower)
  show "has_upper (foldl merge_ineq st rs) \<longleftrightarrow> has_upper st \<or> filter (\<lambda>r. r ! 1 < 0) rs \<noteq> []"
    by (induction rs arbitrary: st) (auto simp: merge_ineq_has_upper)
qed


lemma merge_member_lower:
  "lower (merge_member st p) =
     (if lower_rows p = [] then None
      else lower (foldl merge_ineq (foldl merge_eq (st\<lparr>has_lower := False, has_upper := False\<rparr>)
                    (eq p)) (ineq p)))"
  by (simp add: merge_member_def Let_def fold_has_ineq fold_has_eq lower_rows_def)

lemma merge_member_upper:
  "upper (merge_member st p) =
     (if upper_rows p = [] then None
      else upper (foldl merge_ineq (foldl merge_eq (st\<lparr>has_lower := False, has_upper := False\<rparr>)
                    (eq p)) (ineq p)))"
  by (simp add: merge_member_def Let_def fold_has_ineq fold_has_eq upper_rows_def)

lemma merge_member_lower_Some:
  assumes rows: "\<forall>r \<in> set (eq p). length r = 2 \<and> r ! 1 \<noteq> 0"
    and st: "lower st = Some lo" and lo: "0 < lo ! 1" and ne: "lower_rows p \<noteq> []"
  shows "\<exists>lo'. lower (merge_member st p) = Some lo' \<and> least_lower lo (lower_rows p) lo'"
proof -
  let ?st0 = "st\<lparr>has_lower := False, has_upper := False\<rparr>"
  have st0: "lower ?st0 = Some lo" using st by simp
  from fold_eq_lower[OF st0 lo rows] obtain lo1
    where 1: "lower (foldl merge_eq ?st0 (eq p)) = Some lo1" "least_lower lo (eq p) lo1"
    by blast
  from fold_ineq_lower[OF 1(1) least_lower_pos[OF 1(2)], of "ineq p"] obtain lo2
    where 2: "lower (foldl merge_ineq (foldl merge_eq ?st0 (eq p)) (ineq p)) = Some lo2"
      "least_lower lo1 (filter (\<lambda>r. 0 < r ! 1) (ineq p)) lo2"
    by blast
  have "least_lower lo (lower_rows p) lo2"
    unfolding lower_rows_def by (rule least_lower_trans[OF 1(2) 2(2)])
  then show ?thesis using 2(1) ne by (simp add: merge_member_lower)
qed

lemma merge_member_upper_Some:
  assumes rows: "\<forall>r \<in> set (eq p). length r = 2 \<and> r ! 1 \<noteq> 0"
    and st: "upper st = Some up" and up: "up ! 1 < 0" and ne: "upper_rows p \<noteq> []"
  shows "\<exists>up'. upper (merge_member st p) = Some up' \<and> greatest_upper up (upper_rows p) up'"
proof -
  let ?st0 = "st\<lparr>has_lower := False, has_upper := False\<rparr>"
  have st0: "upper ?st0 = Some up" using st by simp
  from fold_eq_upper[OF st0 up rows] obtain up1
    where 1: "upper (foldl merge_eq ?st0 (eq p)) = Some up1" "greatest_upper up (eq p) up1"
    by blast
  from fold_ineq_upper[OF 1(1) greatest_upper_neg[OF 1(2)], of "ineq p"] obtain up2
    where 2: "upper (foldl merge_ineq (foldl merge_eq ?st0 (eq p)) (ineq p)) = Some up2"
      "greatest_upper up1 (filter (\<lambda>r. r ! 1 < 0) (ineq p)) up2"
    by blast
  have "greatest_upper up (upper_rows p) up2"
    unfolding upper_rows_def by (rule greatest_upper_trans[OF 1(2) 2(2)])
  then show ?thesis using 2(1) ne by (simp add: merge_member_upper)
qed

lemma merge_member_lower_erased:
  "lower st = None \<or> lower_rows p = [] \<Longrightarrow> lower (merge_member st p) = None"
  by (auto simp: merge_member_lower fold_None)

lemma merge_member_upper_erased:
  "upper st = None \<or> upper_rows p = [] \<Longrightarrow> upper (merge_member st p) = None"
  by (auto simp: merge_member_upper fold_None)

text \<open>
  The running bounds keep their signs throughout \<open>convex_hull_1d\<close>: the bounds seeded
  from a first member whose rows all have the variable have a positive (lower) and a
  negative (upper) coefficient, and visiting a member keeps this.
\<close>

lemma seed_ineq_signs:
  assumes "\<forall>r \<in> set rs. r ! 1 \<noteq> 0"
    and "(\<forall>lo. lower st = Some lo \<longrightarrow> 0 < lo ! 1) \<and> (\<forall>up. upper st = Some up \<longrightarrow> up ! 1 < 0)"
  shows "(\<forall>lo. lower (foldl seed_ineq st rs) = Some lo \<longrightarrow> 0 < lo ! 1)
       \<and> (\<forall>up. upper (foldl seed_ineq st rs) = Some up \<longrightarrow> up ! 1 < 0)"
  using assms
proof (induction rs arbitrary: st)
  case Nil
  then show ?case by simp
next
  case (Cons r rs)
  have r: "r ! 1 \<noteq> 0" and rs: "\<forall>r \<in> set rs. r ! 1 \<noteq> 0" using Cons.prems(1) by simp_all
  have "(\<forall>lo. lower (seed_ineq st r) = Some lo \<longrightarrow> 0 < lo ! 1)
      \<and> (\<forall>up. upper (seed_ineq st r) = Some up \<longrightarrow> up ! 1 < 0)"
    using Cons.prems(2) r by (auto simp: seed_ineq_def coeff_cpy)
  from Cons.IH[OF rs this] show ?case by simp
qed

lemma seed_bounds_signs:
  assumes eqs: "\<forall>r \<in> set (eq p0). length r = 2 \<and> r ! 1 \<noteq> 0"
    and nz: "\<forall>r \<in> set (ineq p0). r ! 1 \<noteq> 0"
    and seed: "seed_bounds p0 = Some st"
  shows "(\<forall>lo. lower st = Some lo \<longrightarrow> 0 < lo ! 1) \<and> (\<forall>up. upper st = Some up \<longrightarrow> up ! 1 < 0)"
proof (cases "eq p0")
  case Nil
  then have st: "st = foldl seed_ineq
      \<lparr>lower = None, upper = None, has_lower = False, has_upper = False\<rparr> (ineq p0)"
    using seed by (simp add: seed_bounds_def)
  have init: "(\<forall>lo. lower \<lparr>lower = None, upper = None, has_lower = False, has_upper = False\<rparr>
                  = Some lo \<longrightarrow> 0 < lo ! 1)
      \<and> (\<forall>up. upper \<lparr>lower = None, upper = None, has_lower = False, has_upper = False\<rparr>
                  = Some up \<longrightarrow> up ! 1 < 0)"
    by simp
  show ?thesis unfolding st by (rule seed_ineq_signs[OF nz init])
next
  case (Cons e es)
  have "length (eq p0) = 1"
  proof (rule ccontr)
    assume "length (eq p0) \<noteq> 1"
    then have "seed_bounds p0 = None" using Cons by (simp add: seed_bounds_def)
    with seed show False by simp
  qed
  then have es: "es = []" using Cons by simp
  have e: "length e = 2" "e ! 1 \<noteq> 0" using eqs Cons by simp_all
  have st: "st = (if 0 < e ! 1
        then \<lparr>lower = Some (isl_seq_cpy e 2), upper = Some (isl_seq_neg e 2),
               has_lower = False, has_upper = False\<rparr>
        else \<lparr>lower = Some (isl_seq_neg e 2), upper = Some (isl_seq_cpy e 2),
               has_lower = False, has_upper = False\<rparr>)"
    using seed Cons es by (cases "0 < e ! 1") (simp_all add: seed_bounds_def)
  show ?thesis
  proof (cases "0 < e ! 1")
    case True
    then show ?thesis unfolding st using e(1) by (simp add: coeff_cpy coeff_neg)
  next
    case False
    then have "e ! 1 < 0" using e(2) by simp
    then show ?thesis unfolding st using e(1) by (simp add: coeff_cpy coeff_neg)
  qed
qed

lemma merge_member_signs:
  assumes rows: "\<forall>r \<in> set (eq p). length r = 2 \<and> r ! 1 \<noteq> 0"
    and st: "(\<forall>lo. lower st = Some lo \<longrightarrow> 0 < lo ! 1) \<and> (\<forall>up. upper st = Some up \<longrightarrow> up ! 1 < 0)"
  shows "(\<forall>lo. lower (merge_member st p) = Some lo \<longrightarrow> 0 < lo ! 1)
       \<and> (\<forall>up. upper (merge_member st p) = Some up \<longrightarrow> up ! 1 < 0)"
proof (intro conjI allI impI)
  fix lo assume l: "lower (merge_member st p) = Some lo"
  then obtain lo0 where lo0: "lower st = Some lo0" and ne: "lower_rows p \<noteq> []"
    using merge_member_lower_erased[of st p] by (cases "lower st") auto
  have pos: "0 < lo0 ! 1" using st lo0 by blast
  from merge_member_lower_Some[OF rows lo0 pos ne] obtain lo'
    where "lower (merge_member st p) = Some lo'" "least_lower lo0 (lower_rows p) lo'" by blast
  with l have "least_lower lo0 (lower_rows p) lo" by simp
  then show "0 < lo ! 1" by (rule least_lower_pos)
next
  fix up assume u: "upper (merge_member st p) = Some up"
  then obtain up0 where up0: "upper st = Some up0" and ne: "upper_rows p \<noteq> []"
    using merge_member_upper_erased[of st p] by (cases "upper st") auto
  have neg: "up0 ! 1 < 0" using st up0 by blast
  from merge_member_upper_Some[OF rows up0 neg ne] obtain up'
    where "upper (merge_member st p) = Some up'" "greatest_upper up0 (upper_rows p) up'" by blast
  with u have "greatest_upper up0 (upper_rows p) up" by simp
  then show "up ! 1 < 0" by (rule greatest_upper_neg)
qed

lemma fold_merge_member_signs:
  assumes "\<forall>p \<in> set ps. \<forall>r \<in> set (eq p). length r = 2 \<and> r ! 1 \<noteq> 0"
    and "(\<forall>lo. lower st = Some lo \<longrightarrow> 0 < lo ! 1) \<and> (\<forall>up. upper st = Some up \<longrightarrow> up ! 1 < 0)"
  shows "(\<forall>lo. lower (foldl merge_member st ps) = Some lo \<longrightarrow> 0 < lo ! 1)
       \<and> (\<forall>up. upper (foldl merge_member st ps) = Some up \<longrightarrow> up ! 1 < 0)"
  using assms
proof (induction ps arbitrary: st)
  case Nil
  then show ?case by simp
next
  case (Cons p ps)
  have p: "\<forall>r \<in> set (eq p). length r = 2 \<and> r ! 1 \<noteq> 0"
    and ps: "\<forall>p \<in> set ps. \<forall>r \<in> set (eq p). length r = 2 \<and> r ! 1 \<noteq> 0"
    using Cons.prems(1) by simp_all
  from Cons.IH[OF ps merge_member_signs[OF p Cons.prems(2)]] show ?case by simp
qed

lemma running_bounds_Suc:
  "k < length s \<Longrightarrow> running_bounds st0 s (Suc k) = merge_member (running_bounds st0 s k) (s ! k)"
  by (simp add: running_bounds_def take_Suc_conv_app_nth)

lemma running_bounds_all: "running_bounds st0 s (length s) = foldl merge_member st0 s"
  by (simp add: running_bounds_def)

lemma seed_bounds_Some:
  assumes "length (eq p0) \<le> 1"
  shows "\<exists>st0. seed_bounds p0 = Some st0"
proof (cases "eq p0")
  case Nil
  then show ?thesis by (simp add: seed_bounds_def)
next
  case (Cons e es)
  then have "length (eq p0) = 1" using assms by simp
  then show ?thesis by (simp add: seed_bounds_def)
qed

lemma running_bounds_signs:
  assumes eqs: "\<forall>p \<in> set s. \<forall>r \<in> set (eq p). length r = 2 \<and> r ! 1 \<noteq> 0"
    and st0: "(\<forall>lo. lower st0 = Some lo \<longrightarrow> 0 < lo ! 1) \<and> (\<forall>up. upper st0 = Some up \<longrightarrow> up ! 1 < 0)"
  shows "(\<forall>lo. lower (running_bounds st0 s k) = Some lo \<longrightarrow> 0 < lo ! 1)
       \<and> (\<forall>up. upper (running_bounds st0 s k) = Some up \<longrightarrow> up ! 1 < 0)"
proof -
  have "\<forall>p \<in> set (take k s). \<forall>r \<in> set (eq p). length r = 2 \<and> r ! 1 \<noteq> 0"
    using eqs by (meson in_set_takeD)
  from fold_merge_member_signs[OF this st0] show ?thesis by (simp add: running_bounds_def)
qed

lemma convex_hull_1d_unfold:
  assumes simp: "simplify_all simplify s = Some s1"
    and ne: "isl_set_remove_empty_parts s1 \<noteq> []"
    and seed: "seed_bounds (isl_set_remove_empty_parts s1 ! 0) = Some st0"
  shows "convex_hull_1d simplify finalize s =
      (case isl_basic_set_set_rational finalize
              (Some \<lparr>n_total = 1, eq = [], ineq = [], flags = {}, c_size = 2\<rparr>) of
         None \<Rightarrow> None
       | Some h \<Rightarrow> finalize (add_bounds h
           (running_bounds st0 (isl_set_remove_empty_parts s1)
              (length (isl_set_remove_empty_parts s1)))))"
  unfolding running_bounds_all using assms by (simp add: convex_hull_1d_def Let_def)

text \<open>
  Claim C3, as amended. Let the members be as \<open>isl_basic_set_simplify\<close> and
  \<open>isl_set_remove_empty_parts\<close> leave them, the first with at most one equality, every
  equality a row of two entries with a non-zero coefficient, and every inequality of the
  first member with a non-zero coefficient. When \<open>convex_hull_1d\<close> visits member \<open>k\<close>
  (the loop starts at the first member again), the running lower bound is replaced by
  the least restrictive bound (the one of smallest value) among itself and the member's
  lower-bounding rows, and the running upper bound by the least restrictive (the one of
  largest value) among itself and the member's upper-bounding rows; the values are
  compared exactly (the integer cross-multiplication test agrees with the comparison of
  the rationals \<open>- c\<^sub>0 / c\<^sub>1\<close>). A member with no lower (upper) bounding row erases the
  running lower (upper) bound, an erased bound stays erased, and an erased bound adds no
  inequality to the hull, whose inequalities are the bounds left after the last member.
\<close>

theorem convex_hull_1d_least_restrictive:
  assumes simp: "simplify_all simplify s = Some s1"
    and s2: "s2 = isl_set_remove_empty_parts s1"
    and eqs: "\<forall>p \<in> set s2. \<forall>r \<in> set (eq p). length r = 2 \<and> r ! 1 \<noteq> 0"
    and first: "length (eq (s2 ! 0)) \<le> 1 \<and> (\<forall>r \<in> set (ineq (s2 ! 0)). r ! 1 \<noteq> 0)"
    and k: "k < length s2"
  shows "\<exists>st0. seed_bounds (s2 ! 0) = Some st0
     \<and> convex_hull_1d simplify finalize s =
         (case isl_basic_set_set_rational finalize
                 (Some \<lparr>n_total = 1, eq = [], ineq = [], flags = {}, c_size = 2\<rparr>) of
            None \<Rightarrow> None
          | Some h \<Rightarrow> finalize (add_bounds h (running_bounds st0 s2 (length s2))))
     \<and> (lower (running_bounds st0 s2 k) = None \<or> lower_rows (s2 ! k) = [] \<longrightarrow>
          lower (running_bounds st0 s2 (Suc k)) = None)
     \<and> (\<forall>lo. lower (running_bounds st0 s2 k) = Some lo \<and> lower_rows (s2 ! k) \<noteq> [] \<longrightarrow>
          (\<exists>lo'. lower (running_bounds st0 s2 (Suc k)) = Some lo'
                 \<and> least_lower lo (lower_rows (s2 ! k)) lo'))
     \<and> (upper (running_bounds st0 s2 k) = None \<or> upper_rows (s2 ! k) = [] \<longrightarrow>
          upper (running_bounds st0 s2 (Suc k)) = None)
     \<and> (\<forall>up. upper (running_bounds st0 s2 k) = Some up \<and> upper_rows (s2 ! k) \<noteq> [] \<longrightarrow>
          (\<exists>up'. upper (running_bounds st0 s2 (Suc k)) = Some up'
                 \<and> greatest_upper up (upper_rows (s2 ! k)) up'))
     \<and> (\<forall>h st'. lower st' = None \<longrightarrow>
          ineq (add_bounds h st') =
            ineq h @ (case upper st' of None \<Rightarrow> [] | Some u \<Rightarrow> [isl_seq_cpy u 2]))
     \<and> (\<forall>h st'. upper st' = None \<longrightarrow>
          ineq (add_bounds h st') =
            ineq h @ (case lower st' of None \<Rightarrow> [] | Some l \<Rightarrow> [isl_seq_cpy l 2]))"
proof -
  have ne: "s2 \<noteq> []" using k by auto
  then have p0: "s2 ! 0 \<in> set s2" by simp
  have pk: "s2 ! k \<in> set s2" using k by simp
  from seed_bounds_Some[of "s2 ! 0"] first obtain st0
    where seed: "seed_bounds (s2 ! 0) = Some st0" by blast
  have eq0: "\<forall>r \<in> set (eq (s2 ! 0)). length r = 2 \<and> r ! 1 \<noteq> 0" using eqs p0 by blast
  have nz0: "\<forall>r \<in> set (ineq (s2 ! 0)). r ! 1 \<noteq> 0" using first by blast
  have signs0: "(\<forall>lo. lower st0 = Some lo \<longrightarrow> 0 < lo ! 1)
      \<and> (\<forall>up. upper st0 = Some up \<longrightarrow> up ! 1 < 0)"
    by (rule seed_bounds_signs[OF eq0 nz0 seed])
  define st where "st = running_bounds st0 s2 k"
  have signs: "(\<forall>lo. lower st = Some lo \<longrightarrow> 0 < lo ! 1)
      \<and> (\<forall>up. upper st = Some up \<longrightarrow> up ! 1 < 0)"
    unfolding st_def by (rule running_bounds_signs[OF eqs signs0])
  have step: "running_bounds st0 s2 (Suc k) = merge_member st (s2 ! k)"
    unfolding st_def by (rule running_bounds_Suc[OF k])
  have rows: "\<forall>r \<in> set (eq (s2 ! k)). length r = 2 \<and> r ! 1 \<noteq> 0" using eqs pk by blast
  have unfold: "convex_hull_1d simplify finalize s =
         (case isl_basic_set_set_rational finalize
                 (Some \<lparr>n_total = 1, eq = [], ineq = [], flags = {}, c_size = 2\<rparr>) of
            None \<Rightarrow> None
          | Some h \<Rightarrow> finalize (add_bounds h (running_bounds st0 s2 (length s2))))"
    using convex_hull_1d_unfold[OF simp ne[unfolded s2] seed[unfolded s2]] unfolding s2 .
  have l_erased: "lower st = None \<or> lower_rows (s2 ! k) = [] \<longrightarrow>
      lower (merge_member st (s2 ! k)) = None"
    using merge_member_lower_erased by blast
  have u_erased: "upper st = None \<or> upper_rows (s2 ! k) = [] \<longrightarrow>
      upper (merge_member st (s2 ! k)) = None"
    using merge_member_upper_erased by blast
  have l_kept: "\<forall>lo. lower st = Some lo \<and> lower_rows (s2 ! k) \<noteq> [] \<longrightarrow>
      (\<exists>lo'. lower (merge_member st (s2 ! k)) = Some lo'
             \<and> least_lower lo (lower_rows (s2 ! k)) lo')"
    using signs merge_member_lower_Some[OF rows] by blast
  have u_kept: "\<forall>up. upper st = Some up \<and> upper_rows (s2 ! k) \<noteq> [] \<longrightarrow>
      (\<exists>up'. upper (merge_member st (s2 ! k)) = Some up'
             \<and> greatest_upper up (upper_rows (s2 ! k)) up')"
    using signs merge_member_upper_Some[OF rows] by blast
  have add_l: "\<forall>h st'. lower st' = None \<longrightarrow>
          ineq (add_bounds h st') =
            ineq h @ (case upper st' of None \<Rightarrow> [] | Some u \<Rightarrow> [isl_seq_cpy u 2])"
    by (simp add: add_bounds_def split: option.splits)
  have add_u: "\<forall>h st'. upper st' = None \<longrightarrow>
          ineq (add_bounds h st') =
            ineq h @ (case lower st' of None \<Rightarrow> [] | Some l \<Rightarrow> [isl_seq_cpy l 2])"
    by (simp add: add_bounds_def split: option.splits)
  show ?thesis
    apply (rule exI[where x=st0])
    unfolding step st_def[symmetric]
    using seed unfold l_erased l_kept u_erased u_kept add_l add_u by blast
qed

text \<open>
  Claim C3, witness: in the collinear scenario of section 8 the bounds \<open>1 \<le> x \<le> 3\<close>
  of the first member meet the member \<open>2 \<le> x \<le> 5\<close>; the lower bound stays \<open>x \<ge> 1\<close>,
  the upper bound becomes \<open>x \<le> 5\<close>. The halfline \<open>x \<ge> 2\<close> has no upper bound: the
  running upper bound is erased and the hull of \<open>{1 \<le> x \<le> 3} \<union> {x \<ge> 2}\<close> is
  \<open>x \<ge> 1\<close>.
\<close>

theorem convex_hull_1d_witness:
  "seed_bounds (interval 1 3) =
        Some \<lparr>lower = Some [-1, 1], upper = Some [3, -1], has_lower = False, has_upper = False\<rparr>
   \<and> running_bounds
        \<lparr>lower = Some [-1, 1], upper = Some [3, -1], has_lower = False, has_upper = False\<rparr>
        [interval 1 3, interval 2 5, interval 7 8] 2 =
        \<lparr>lower = Some [-1, 1], upper = Some [5, -1], has_lower = True, has_upper = True\<rparr>
   \<and> least_lower [-1, 1] (lower_rows (interval 2 5)) [-1, 1]
   \<and> greatest_upper [3, -1] (upper_rows (interval 2 5)) [5, -1]
   \<and> upper (running_bounds
        \<lparr>lower = Some [-1, 1], upper = Some [3, -1], has_lower = False, has_upper = False\<rparr>
        [interval 1 3, halfline 2 1] 2) = None
   \<and> convex_hull_1d Some Some [interval 1 3, halfline 2 1] =
        Some \<lparr>n_total = 1, eq = [], ineq = [[-1, 1]], flags = {RATIONAL}, c_size = 2\<rparr>"
proof -
  define st0 where "st0 =
    \<lparr>lower = Some [-1, 1], upper = Some [3, -1], has_lower = False, has_upper = False\<rparr>"
  define sa where "sa = [interval 1 3, interval 2 5, interval 7 8]"
  define sb where "sb = [interval 1 3, halfline 2 1]"
  have seed: "seed_bounds (interval 1 3) = Some st0"
    by (simp add: st0_def seed_bounds_def seed_ineq_def interval_def isl_seq_cpy_def)
  have simp_a: "simplify_all Some sa = Some sa" by (simp add: sa_def)
  have simp_b: "simplify_all Some sb = Some sb" by (simp add: sb_def)
  have s2_a: "sa = isl_set_remove_empty_parts sa"
    by (simp add: sa_def isl_set_remove_empty_parts_def interval_def)
  have s2_b: "sb = isl_set_remove_empty_parts sb"
    by (simp add: sb_def isl_set_remove_empty_parts_def interval_def halfline_def)
  have eqs_a: "\<forall>p \<in> set sa. \<forall>r \<in> set (eq p). length r = 2 \<and> r ! 1 \<noteq> 0"
    by (simp add: sa_def interval_def)
  have eqs_b: "\<forall>p \<in> set sb. \<forall>r \<in> set (eq p). length r = 2 \<and> r ! 1 \<noteq> 0"
    by (simp add: sb_def interval_def halfline_def)
  have first_a: "length (eq (sa ! 0)) \<le> 1 \<and> (\<forall>r \<in> set (ineq (sa ! 0)). r ! 1 \<noteq> 0)"
    by (simp add: sa_def interval_def)
  have first_b: "length (eq (sb ! 0)) \<le> 1 \<and> (\<forall>r \<in> set (ineq (sb ! 0)). r ! 1 \<noteq> 0)"
    by (simp add: sb_def interval_def)
  have k_a: "1 < length sa" by (simp add: sa_def)
  have k_b: "1 < length sb" by (simp add: sb_def)
  have run1_a: "running_bounds st0 sa 1 =
      \<lparr>lower = Some [-1, 1], upper = Some [3, -1], has_lower = True, has_upper = True\<rparr>"
    by (simp add: running_bounds_def sa_def st0_def merge_member_def merge_eq_def
        merge_ineq_def interval_def isl_seq_cpy_def Let_def)
  have run2_a: "running_bounds st0 sa 2 =
      \<lparr>lower = Some [-1, 1], upper = Some [5, -1], has_lower = True, has_upper = True\<rparr>"
    by (simp add: running_bounds_def sa_def st0_def merge_member_def merge_eq_def
        merge_ineq_def interval_def isl_seq_cpy_def Let_def numeral_2_eq_2)
  have rows_a: "lower_rows (sa ! 1) \<noteq> []" "upper_rows (sa ! 1) \<noteq> []"
    by (simp_all add: sa_def lower_rows_def upper_rows_def interval_def)
  have sa1: "sa ! 1 = interval 2 5" and sa0: "sa ! 0 = interval 1 3" by (simp_all add: sa_def)
  have sb0: "sb ! 0 = interval 1 3" by (simp add: sb_def)
  from convex_hull_1d_least_restrictive[OF simp_a s2_a eqs_a first_a k_a, of Some]
  obtain sta where a: "seed_bounds (sa ! 0) = Some sta"
    "\<forall>lo. lower (running_bounds sta sa 1) = Some lo \<and> lower_rows (sa ! 1) \<noteq> [] \<longrightarrow>
          (\<exists>lo'. lower (running_bounds sta sa (Suc 1)) = Some lo'
                 \<and> least_lower lo (lower_rows (sa ! 1)) lo')"
    "\<forall>up. upper (running_bounds sta sa 1) = Some up \<and> upper_rows (sa ! 1) \<noteq> [] \<longrightarrow>
          (\<exists>up'. upper (running_bounds sta sa (Suc 1)) = Some up'
                 \<and> greatest_upper up (upper_rows (sa ! 1)) up')"
    by blast
  have sta: "sta = st0" using a(1) seed sa0 by simp
  have ll: "least_lower [-1, 1] (lower_rows (interval 2 5)) [-1, 1]"
    using a(2) rows_a(1) run1_a run2_a unfolding sta sa1 by (simp add: numeral_2_eq_2)
  have gu: "greatest_upper [3, -1] (upper_rows (interval 2 5)) [5, -1]"
    using a(3) rows_a(2) run1_a run2_a unfolding sta sa1 by (simp add: numeral_2_eq_2)
  have no_up: "upper_rows (sb ! 1) = []"
    by (simp add: sb_def upper_rows_def halfline_def)
  from convex_hull_1d_least_restrictive[OF simp_b s2_b eqs_b first_b k_b, of Some]
  obtain stb where b: "seed_bounds (sb ! 0) = Some stb"
    "convex_hull_1d Some Some sb =
         (case isl_basic_set_set_rational Some
                 (Some \<lparr>n_total = 1, eq = [], ineq = [], flags = {}, c_size = 2\<rparr>) of
            None \<Rightarrow> None
          | Some h \<Rightarrow> Some (add_bounds h (running_bounds stb sb (length sb))))"
    "upper (running_bounds stb sb 1) = None \<or> upper_rows (sb ! 1) = [] \<longrightarrow>
          upper (running_bounds stb sb (Suc 1)) = None"
    by blast
  have stb: "stb = st0" using b(1) seed sb0 by simp
  have erased: "upper (running_bounds st0 sb 2) = None"
    using b(3) no_up unfolding stb by (simp add: numeral_2_eq_2)
  have run2_b: "running_bounds st0 sb 2 =
      \<lparr>lower = Some [-1, 1], upper = None, has_lower = True, has_upper = False\<rparr>"
    by (simp add: running_bounds_def sb_def st0_def merge_member_def merge_eq_def
        merge_ineq_def interval_def halfline_def isl_seq_cpy_def Let_def numeral_2_eq_2)
  have len_b: "length sb = 2" by (simp add: sb_def)
  have res_b: "convex_hull_1d Some Some sb =
        Some \<lparr>n_total = 1, eq = [], ineq = [[-1, 1]], flags = {RATIONAL}, c_size = 2\<rparr>"
    unfolding b(2) stb len_b run2_b
    by (simp add: isl_basic_set_set_rational_def add_bounds_def isl_seq_cpy_def)
  show ?thesis
    using seed run2_a ll gu erased res_b unfolding st0_def sa_def sb_def by simp
qed

text \<open>
  Claim C3 as stated fails: with the running bounds \<open>1 \<le> x \<le> 3\<close>, the member
  \<open>2 \<le> x \<le> 5\<close> has the more restrictive lower bound \<open>x \<ge> 2\<close>, yet the running lower
  bound stays \<open>x \<ge> 1\<close>; the hull of the collinear scenario of section 8 is
  \<open>1 \<le> x \<le> 8\<close>.
\<close>

theorem convex_hull_1d_counterexample:
  "lower (merge_member bounds_1_3 (interval 2 5)) = Some [-1, 1]
   \<and> lower_rows (interval 2 5) = [[-2, 1]]
   \<and> bound_val [-1, 1] < bound_val [-2, 1]
   \<and> convex_hull_1d Some Some [interval 1 3, interval 2 5, interval 7 8] =
        Some \<lparr>n_total = 1, eq = [], ineq = [[-1, 1], [8, -1]], flags = {RATIONAL}, c_size = 2\<rparr>"
proof -
  have 1: "lower (merge_member bounds_1_3 (interval 2 5)) = Some [-1, 1]"
    by (simp add: merge_member_def merge_eq_def merge_ineq_def bounds_1_3_def interval_def
        isl_seq_cpy_def isl_seq_neg_def Let_def)
  have 2: "lower_rows (interval 2 5) = [[-2, 1]]" by (simp add: lower_rows_def interval_def)
  have 3: "bound_val [-1, 1] < bound_val [-2, 1]" by (simp add: bound_val_def)
  have 4: "convex_hull_1d Some Some [interval 1 3, interval 2 5, interval 7 8] =
        Some \<lparr>n_total = 1, eq = [], ineq = [[-1, 1], [8, -1]], flags = {RATIONAL}, c_size = 2\<rparr>"
    by (simp add: convex_hull_1d_def isl_set_remove_empty_parts_def seed_bounds_def seed_ineq_def
        isl_basic_set_set_rational_def add_bounds_def merge_member_def merge_eq_def
        merge_ineq_def interval_def isl_seq_cpy_def isl_seq_neg_def Let_def)
  show ?thesis using 1 2 3 4 by blast
qed

text \<open>
  The condition on the inequalities of the first member is needed: the seeding loop
  takes every row whose coefficient is not positive as the upper bound, so a row
  without the variable, such as \<open>5 \<ge> 0\<close>, becomes the running upper bound, and no
  upper bound of a later member replaces it.
\<close>

lemma seed_bounds_zero_coefficient:
  "seed_bounds \<lparr>n_total = 1, eq = [], ineq = [[-1, 1], [3, -1], [5, 0]], flags = {}, c_size = 3\<rparr>
     = Some \<lparr>lower = Some [-1, 1], upper = Some [5, 0], has_lower = False, has_upper = False\<rparr>
   \<and> upper (merge_member
        \<lparr>lower = Some [-1, 1], upper = Some [5, 0], has_lower = False, has_upper = False\<rparr>
        (interval 2 9)) = Some [5, 0]"
  by (simp add: seed_bounds_def seed_ineq_def merge_member_def merge_eq_def merge_ineq_def
      interval_def isl_seq_cpy_def Let_def)

subsection \<open>Wrapping\<close>

lemma dotp_combine:
  "length f = length r \<Longrightarrow>
     dotp (map2 (\<lambda>a b. m * a + n * b) f r) x = of_int m * dotp f x + of_int n * dotp r x"
proof (induction f r arbitrary: x rule: list_induct2)
  case Nil
  then show ?case by simp
next
  case (Cons a f b r)
  then show ?case by (cases x) (simp_all add: algebra_simps)
qed

lemma row_val_combine:
  assumes "length f = len" "length r = len" "0 < len"
  shows "row_val (isl_seq_combine m f n r len) x = of_int m * row_val f x + of_int n * row_val r x"
proof -
  obtain a f' where f: "f = a # f'" using assms by (cases f) auto
  obtain b r' where r: "r = b # r'" using assms by (cases r) auto
  have "length f' = length r'" using assms f r by auto
  then show ?thesis
    using assms by (simp add: isl_seq_combine_def row_val_def f r dotp_combine ring_distribs)
qed

lemma wrap_lp_a_eq:
  "wrap_constraints (preimage_rows set_a (right_inverse_ex (wrap_matrix set_a [0, 1, 0] [0, 0, 1])))
     = Some wrap_lp_a"
  by (simp add: wrap_constraints_def preimage_rows_def right_inverse_ex_def wrap_matrix_def
      set_a_def triangle_a_def origin_2d_def wrap_lp_a_def row_times_mat_def wrap_sum_row_def
      wrap_dilation_row_def wrap_block_row_def isl_seq_clr_def isl_seq_cpy_def Let_def
      upt_rec numeral_2_eq_2 numeral_3_eq_3)

lemma wrap_lp_b_eq:
  "wrap_constraints (preimage_rows set_b (right_inverse_ex (wrap_matrix set_b [0, 1, 1] [0, 1, -1])))
     = Some wrap_lp_b"
  by (simp add: wrap_constraints_def preimage_rows_def right_inverse_ex_def wrap_matrix_def
      set_b_def triangle_b_def origin_2d_def wrap_lp_b_def row_times_mat_def wrap_sum_row_def
      wrap_dilation_row_def wrap_block_row_def isl_seq_clr_def isl_seq_cpy_def Let_def
      upt_rec numeral_2_eq_2 numeral_3_eq_3)

lemma length_six:
  "length x = 6 \<longleftrightarrow> (\<exists>a b c d e f. x = [a, b, c, d, e, f])"
proof
  assume "length x = 6"
  then show "\<exists>a b c d e f. x = [a, b, c, d, e, f]"
    by (auto simp: length_Suc_conv eval_nat_numeral)
qed auto

lemma satisfies_wrap_lp_a:
  "satisfies wrap_lp_a x \<longleftrightarrow>
     (\<exists>a b c d. x = [a, b, c, d, 0, 0] \<and> b = 1 \<and> 0 \<le> a \<and> 0 \<le> b \<and> b \<le> c \<and> c \<le> a
         \<and> 0 \<le> d)"
  by (auto simp: satisfies_def wrap_lp_a_def row_val_def length_six)

lemma satisfies_wrap_lp_b:
  "satisfies wrap_lp_b x \<longleftrightarrow>
     (\<exists>a b c d. x = [a, b, c, d, 0, 0] \<and> b = 1 \<and> 0 \<le> a \<and> 0 \<le> b + c \<and> 0 \<le> b
         \<and> 0 \<le> 2 * a - 3 * b - c \<and> 0 \<le> d)"
  by (auto simp: satisfies_def wrap_lp_b_def row_val_def length_six)

lemma wrap_objective_3_2: "wrap_objective 3 2 = [0, 0, 1, 0, 0, 1]"
  by (simp add: wrap_objective_def isl_seq_clr_def numeral_2_eq_2)

lemma lp_optimum_a: "lp_optimum wrap_lp_a (wrap_objective 3 2) 1 1"
  unfolding lp_optimum_def wrap_objective_3_2
proof (intro conjI)
  show "\<exists>x. satisfies wrap_lp_a x \<and> dotp [0, 0, 1, 0, 0, 1] x = of_int 1 / of_int 1"
    by (rule exI[where x="[1, 1, 1, 0, 0, 0]"]) (simp add: satisfies_wrap_lp_a)
  show "\<forall>x. satisfies wrap_lp_a x \<longrightarrow> of_int 1 / of_int 1 \<le> dotp [0, 0, 1, 0, 0, 1] x"
    by (auto simp: satisfies_wrap_lp_a)
qed simp

lemma lp_optimum_b: "lp_optimum wrap_lp_b (wrap_objective 3 2) (-1) 1"
  unfolding lp_optimum_def wrap_objective_3_2
proof (intro conjI)
  show "\<exists>x. satisfies wrap_lp_b x \<and> dotp [0, 0, 1, 0, 0, 1] x = of_int (-1) / of_int 1"
    by (rule exI[where x="[1, 1, -1, 0, 0, 0]"]) (simp add: satisfies_wrap_lp_b)
  show "\<forall>x. satisfies wrap_lp_b x \<longrightarrow> of_int (-1) / of_int 1 \<le> dotp [0, 0, 1, 0, 0, 1] x"
    by (auto simp: satisfies_wrap_lp_b)
qed simp


lemma combine_full:
  assumes "length facet = len" "length ridge = len"
  shows "isl_seq_combine m facet n ridge len @ drop len facet = map2 (\<lambda>a b. m * a + n * b) facet ridge"
  using assms by (simp add: isl_seq_combine_def)

lemma wrap_lp_result_Some:
  "wrap_constraints (Some s') = Some lpb \<Longrightarrow>
     wrap_lp_result lp s s' = lp lpb (wrap_objective (1 + n_dim s) (length (members s'))) True"
  by (simp add: wrap_lp_result_def)

lemma wrap_constraints_Some: "\<exists>lpb. wrap_constraints (Some s') = Some lpb"
  by (simp add: wrap_constraints_def Let_def)

lemma wrap_facet_unfold:
  assumes "preimage s (right_inverse (wrap_matrix s facet ridge)) = Some s'"
  shows "wrap_facet lp right_inverse preimage s facet ridge =
     (case wrap_lp_result lp s s' of
        isl_lp_ok num den \<Rightarrow>
          Some (isl_seq_combine (- num) facet den ridge (1 + n_dim s) @ drop (1 + n_dim s) facet)
      | isl_lp_unbounded \<Rightarrow> Some facet
      | isl_lp_empty \<Rightarrow> None
      | isl_lp_error \<Rightarrow> None)"
proof -
  obtain lpb where lpb: "wrap_constraints (Some s') = Some lpb"
    using wrap_constraints_Some by blast
  show ?thesis
    using assms lpb
    by (simp add: wrap_facet_def wrap_lp_result_def Let_def split: lp_result.splits)
qed

text \<open>
  Claim C2, as amended. In \<open>wrap_facet(set, facet, ridge)\<close>: when the transformed set
  is null the function reports no result; otherwise, when the constructed LP returns
  unbounded, the original facet row is returned unchanged; when the LP returns ok with
  optimum \<open>num/den\<close>, the returned row is the integer combination
  \<open>(- num) facet + den ridge\<close>, entry by entry and as an affine form; any other LP
  outcome (empty, error) makes \<open>wrap_facet\<close> report no result.
\<close>

theorem wrap_facet_outcomes:
  "(preimage s (right_inverse (wrap_matrix s facet ridge)) = None \<longrightarrow>
      wrap_facet lp right_inverse preimage s facet ridge = None)
   \<and> (\<forall>s'. preimage s (right_inverse (wrap_matrix s facet ridge)) = Some s' \<longrightarrow>
        (wrap_lp_result lp s s' = isl_lp_unbounded \<longrightarrow>
           wrap_facet lp right_inverse preimage s facet ridge = Some facet)
      \<and> (\<forall>num den. wrap_lp_result lp s s' = isl_lp_ok num den \<longrightarrow>
           wrap_facet lp right_inverse preimage s facet ridge =
             Some (isl_seq_combine (- num) facet den ridge (1 + n_dim s)
                     @ drop (1 + n_dim s) facet))
      \<and> (wrap_lp_result lp s s' = isl_lp_empty \<or> wrap_lp_result lp s s' = isl_lp_error \<longrightarrow>
           wrap_facet lp right_inverse preimage s facet ridge = None))
   \<and> (\<forall>num den x. length facet = 1 + n_dim s \<and> length ridge = 1 + n_dim s \<longrightarrow>
        isl_seq_combine (- num) facet den ridge (1 + n_dim s) @ drop (1 + n_dim s) facet
          = map2 (\<lambda>a b. - num * a + den * b) facet ridge
      \<and> row_val (isl_seq_combine (- num) facet den ridge (1 + n_dim s)) x
          = - of_int num * row_val facet x + of_int den * row_val ridge x)"
proof (intro conjI allI impI)
  show "wrap_facet lp right_inverse preimage s facet ridge = None"
    if "preimage s (right_inverse (wrap_matrix s facet ridge)) = None"
    using that by (simp add: wrap_facet_def Let_def)
next
  fix s' assume pre: "preimage s (right_inverse (wrap_matrix s facet ridge)) = Some s'"
  have unf: "wrap_facet lp right_inverse preimage s facet ridge =
     (case wrap_lp_result lp s s' of
        isl_lp_ok num den \<Rightarrow>
          Some (isl_seq_combine (- num) facet den ridge (1 + n_dim s) @ drop (1 + n_dim s) facet)
      | isl_lp_unbounded \<Rightarrow> Some facet
      | isl_lp_empty \<Rightarrow> None
      | isl_lp_error \<Rightarrow> None)"
    using pre by (rule wrap_facet_unfold)
  show "wrap_facet lp right_inverse preimage s facet ridge = Some facet"
    if "wrap_lp_result lp s s' = isl_lp_unbounded"
    using that unf by simp
  show "wrap_facet lp right_inverse preimage s facet ridge =
          Some (isl_seq_combine (- num) facet den ridge (1 + n_dim s) @ drop (1 + n_dim s) facet)"
    if "wrap_lp_result lp s s' = isl_lp_ok num den" for num den
    using that unf by simp
  show "wrap_facet lp right_inverse preimage s facet ridge = None"
    if "wrap_lp_result lp s s' = isl_lp_empty \<or> wrap_lp_result lp s s' = isl_lp_error"
    using that unf by auto
next
  fix num den :: int and x :: "rat list"
  assume len: "length facet = 1 + n_dim s \<and> length ridge = 1 + n_dim s"
  show "isl_seq_combine (- num) facet den ridge (1 + n_dim s) @ drop (1 + n_dim s) facet
          = map2 (\<lambda>a b. - num * a + den * b) facet ridge"
    using len combine_full[of facet "1 + n_dim s" ridge "- num" den] by simp
  show "row_val (isl_seq_combine (- num) facet den ridge (1 + n_dim s)) x
          = - of_int num * row_val facet x + of_int den * row_val ridge x"
    using len row_val_combine[of facet "1 + n_dim s" ridge "- num" den x] by simp
qed

lemma preimage_b:
  "\<exists>s'. preimage_rows set_b (right_inverse_ex (wrap_matrix set_b [0, 1, 1] [0, 1, -1])) = Some s'
     \<and> wrap_constraints (Some s') = Some wrap_lp_b \<and> length (members s') = 2"
  using wrap_lp_b_eq
  by (simp add: preimage_rows_def right_inverse_ex_def wrap_matrix_def set_b_def
      isl_seq_clr_def isl_seq_cpy_def numeral_2_eq_2)

text \<open>
  Claim C2, witness: the facet \<open>x\<^sub>1 + x\<^sub>2 \<ge> 0\<close> of the second example wrapped around
  the ridge \<open>x\<^sub>1 - x\<^sub>2 \<ge> 0\<close>; the LP optimum is \<open>-1/1\<close> and the result is the row
  \<open>2 x\<^sub>1 \<ge> 0\<close>. A solver that answers empty gives no result.
\<close>

theorem wrap_facet_witness:
  "lp_optimum wrap_lp_b (wrap_objective 3 2) (-1) 1
   \<and> wrap_facet (lp_answer (-1) 1) right_inverse_ex preimage_rows set_b [0, 1, 1] [0, 1, -1]
       = Some [0, 2, 0]
   \<and> wrap_facet (\<lambda>b f d. isl_lp_empty) right_inverse_ex preimage_rows set_b [0, 1, 1] [0, 1, -1]
       = None"
proof -
  obtain s' where s': "preimage_rows set_b (right_inverse_ex (wrap_matrix set_b [0, 1, 1] [0, 1, -1])) = Some s'"
    and lpb: "wrap_constraints (Some s') = Some wrap_lp_b"
    using preimage_b by blast
  have res: "wrap_lp_result (lp_answer (-1) 1) set_b s' = isl_lp_ok (-1) 1"
    using lpb by (simp add: wrap_lp_result_def lp_answer_def)
  have res': "wrap_lp_result (\<lambda>b f d. isl_lp_empty) set_b s' = isl_lp_empty"
    using lpb by (simp add: wrap_lp_result_def)
  have "wrap_facet (lp_answer (-1) 1) right_inverse_ex preimage_rows set_b [0, 1, 1] [0, 1, -1]
          = Some (isl_seq_combine (- (-1)) [0, 1, 1] 1 [0, 1, -1] (1 + n_dim set_b)
                    @ drop (1 + n_dim set_b) [0, 1, 1])"
    using wrap_facet_outcomes[of preimage_rows set_b right_inverse_ex "[0, 1, 1]" "[0, 1, -1]"
        "lp_answer (-1) 1"] s' res by blast
  then have 1: "wrap_facet (lp_answer (-1) 1) right_inverse_ex preimage_rows set_b [0, 1, 1] [0, 1, -1]
       = Some [0, 2, 0]"
    by (simp add: isl_seq_combine_def set_b_def)
  have 2: "wrap_facet (\<lambda>b f d. isl_lp_empty) right_inverse_ex preimage_rows set_b [0, 1, 1] [0, 1, -1]
       = None"
    using wrap_facet_outcomes[of preimage_rows set_b right_inverse_ex "[0, 1, 1]" "[0, 1, -1]"
        "\<lambda>b f d. isl_lp_empty"] s' res' by blast
  show ?thesis using 1 2 lp_optimum_b by blast
qed

text \<open>
  Claim C2 as stated fails: in the first example the LP optimum is \<open>1/1\<close>, and the row
  returned is \<open>- facet + ridge\<close>, the facet \<open>x\<^sub>2 - x\<^sub>1 \<ge> 0\<close> of the triangle, not
  \<open>num facet + den ridge = facet + ridge\<close>.
\<close>

theorem wrap_facet_counterexample:
  "wrap_constraints (preimage_rows set_a (right_inverse_ex (wrap_matrix set_a [0, 1, 0] [0, 0, 1])))
     = Some wrap_lp_a
   \<and> lp_optimum wrap_lp_a (wrap_objective 3 2) 1 1
   \<and> wrap_facet (lp_answer 1 1) right_inverse_ex preimage_rows set_a [0, 1, 0] [0, 0, 1]
       = Some [0, -1, 1]
   \<and> isl_seq_combine 1 [0, 1, 0] 1 [0, 0, 1] 3 = [0, 1, 1]"
proof -
  have "wrap_facet (lp_answer 1 1) right_inverse_ex preimage_rows set_a [0, 1, 0] [0, 0, 1]
       = Some [0, -1, 1]"
    by (simp add: wrap_facet_def wrap_constraints_def preimage_rows_def right_inverse_ex_def
        wrap_matrix_def set_a_def lp_answer_def isl_seq_combine_def isl_seq_clr_def
        isl_seq_cpy_def Let_def numeral_2_eq_2)
  moreover have "isl_seq_combine 1 [0, 1, 0] 1 [0, 0, 1] 3 = [0, 1, 1]"
    by (simp add: isl_seq_combine_def)
  ultimately show ?thesis using wrap_lp_a_eq lp_optimum_a by blast
qed

subsection \<open>Extending the hull\<close>

lemma list_ex_upt: "list_ex P [0..<k] \<longleftrightarrow> (\<exists>f<k. P f)"
  by (auto simp: list_ex_iff)

lemma extend_candidate_Some:
  assumes "extend_candidate wrap s i h ridge = Some h'"
  shows "\<exists>cand. isl_basic_set_alloc_inequality h = Some (length (ineq h))
           \<and> wrap s (isl_seq_cpy (ineq h ! i) (1 + n_dim s)) ridge = Some cand
           \<and> (if \<exists>f < length (ineq h). isl_seq_eq (ineq h ! f) cand (1 + n_dim s)
               then h' = h else h' = h\<lparr>ineq := ineq h @ [cand]\<rparr>)"
proof -
  from assms obtain k where k: "isl_basic_set_alloc_inequality h = Some k"
    by (auto simp: extend_candidate_def split: option.splits)
  then have kl: "k = length (ineq h)"
    by (auto simp: isl_basic_set_alloc_inequality_def split: if_splits)
  from assms k obtain cand
    where cand: "wrap s (isl_seq_cpy (ineq h ! i) (1 + n_dim s)) ridge = Some cand"
    by (auto simp: extend_candidate_def split: option.splits)
  have scan: "list_ex (\<lambda>f. isl_seq_eq ((ineq h @ [cand]) ! f) ((ineq h @ [cand]) ! k) (1 + n_dim s)) [0..<k]
      \<longleftrightarrow> (\<exists>f < length (ineq h). isl_seq_eq (ineq h ! f) cand (1 + n_dim s))"
    unfolding list_ex_upt kl by (auto simp: nth_append)
  have free: "isl_basic_set_free_inequality (h\<lparr>ineq := ineq h @ [cand]\<rparr>) 1 = h"
    by (simp add: isl_basic_set_free_inequality_def)
  show ?thesis
    using assms k cand scan free kl
    by (auto simp: extend_candidate_def Let_def split: if_splits)
qed

lemma no_equal_rows_snoc:
  "no_equal_rows len (rows @ [cand]) \<longleftrightarrow>
     no_equal_rows len rows \<and> \<not> (\<exists>f < length rows. isl_seq_eq (rows ! f) cand len)"
proof -
  have "take len cand \<in> take len ` set rows \<longleftrightarrow> (\<exists>f < length rows. take len (rows ! f) = take len cand)"
  proof
    assume "take len cand \<in> take len ` set rows"
    then obtain r where r: "r \<in> set rows" "take len cand = take len r" by auto
    then obtain f where "f < length rows" "rows ! f = r" by (auto simp: in_set_conv_nth)
    then show "\<exists>f < length rows. take len (rows ! f) = take len cand" using r(2) by auto
  next
    assume "\<exists>f < length rows. take len (rows ! f) = take len cand"
    then obtain f where f: "f < length rows" "take len (rows ! f) = take len cand" by blast
    then have "rows ! f \<in> set rows" by simp
    then show "take len cand \<in> take len ` set rows" using f(2) by (metis image_eqI)
  qed
  then show ?thesis by (auto simp: no_equal_rows_def isl_seq_eq_def)
qed

text \<open>
  The scan of \<open>extend\<close> compares the candidate, as \<open>wrap_facet\<close> left it, with the
  rows before it: rows that are pairwise different stay pairwise different.
\<close>

lemma extend_candidate_distinct:
  assumes "no_equal_rows (1 + n_dim s) (ineq h)" "extend_candidate wrap s i h ridge = Some h'"
  shows "no_equal_rows (1 + n_dim s) (ineq h')"
  using extend_candidate_Some[OF assms(2)] assms(1)
  by (auto simp: no_equal_rows_snoc split: if_splits)

lemma extend_ridges_distinct:
  assumes "no_equal_rows (1 + n_dim s) (ineq h)" "extend_ridges wrap s i h ridges = Some h'"
  shows "no_equal_rows (1 + n_dim s) (ineq h')"
  using assms
proof (induction ridges arbitrary: h)
  case Nil
  then show ?case by simp
next
  case (Cons r rs)
  from Cons.prems(2) obtain h1 where h1: "extend_candidate wrap s i h r = Some h1"
    and rest: "extend_ridges wrap s i h1 rs = Some h'"
    by (auto split: option.splits)
  show ?case
    using Cons.IH[OF extend_candidate_distinct[OF Cons.prems(1) h1] rest] .
qed


lemma extend_walk_distinct:
  assumes "extend_walk compute_facet wrap s i n_ineq h = Some r"
  shows "no_equal_rows (1 + n_dim s) (ineq h) \<longrightarrow>
           (\<forall>h'. r = Some h' \<longrightarrow> no_equal_rows (1 + n_dim s) (ineq h'))"
  using assms
proof (induction rule: extend_walk.raw_induct[rotated 1, consumes 1])
  case (1 walk compute_facet wrap s i n_ineq h r)
  note IH = "1"(1) and run = "1"(2)
  show ?case
  proof (intro impI allI)
    fix h' assume inv: "no_equal_rows (1 + n_dim s) (ineq h)" and r: "r = Some h'"
    show "no_equal_rows (1 + n_dim s) (ineq h')"
    proof (cases "i < length (ineq h)")
      case False
      with run r show ?thesis using inv by simp
    next
      case True
      with run r obtain facet where facet: "compute_facet s (ineq h ! i) = Some facet"
        by (auto split: option.splits)
      define grow where "grow \<longleftrightarrow> n_ineq < length (ineq facet) + length (ineq h)"
      define h1 where "h1 = (if grow then isl_basic_set_extend h (length (ineq facet)) else h)"
      from run r True facet obtain h2 n1
        where h2: "extend_ridges wrap s i h1 (ineq facet) = Some h2"
          and rec: "walk compute_facet wrap s (i + 1) n1 h2 = Some (Some h')"
        by (auto simp: Let_def h1_def grow_def split: option.splits if_splits)
      have "ineq h1 = ineq h" by (simp add: h1_def isl_basic_set_extend_def)
      then have "no_equal_rows (1 + n_dim s) (ineq h1)" using inv by simp
      then have "no_equal_rows (1 + n_dim s) (ineq h2)"
        using h2 by (rule extend_ridges_distinct)
      then show ?thesis using IH[OF rec] by simp
    qed
  qed
qed


lemma isl_seq_eq_cpy: "isl_seq_eq r (isl_seq_cpy r len) len"
  by (simp add: isl_seq_eq_def isl_seq_cpy_def)

text \<open>
  Claim C10. In \<open>extend\<close>, whenever \<open>wrap_facet\<close> takes its unbounded-LP branch for a
  ridge of the facet \<open>hull->ineq[i]\<close>, the candidate row, seeded as a copy of
  \<open>hull->ineq[i]\<close>, is returned as it was seeded, is \<open>isl_seq_eq\<close> to \<open>hull->ineq[i]\<close>
  and so is found by the scan over the rows before it (\<open>i < k\<close>), and is freed: the hull
  is left as it was (if there was room to allocate the candidate at all; otherwise the
  function fails).
\<close>

theorem unbounded_wrap_adds_nothing:
  assumes i: "i < length (ineq h)"
    and pre: "preimage s (right_inverse
                (wrap_matrix s (isl_seq_cpy (ineq h ! i) (1 + n_dim s)) ridge)) = Some s'"
    and unb: "wrap_lp_result lp s s' = isl_lp_unbounded"
  shows "wrap_facet lp right_inverse preimage s (isl_seq_cpy (ineq h ! i) (1 + n_dim s)) ridge
           = Some (isl_seq_cpy (ineq h ! i) (1 + n_dim s))
     \<and> isl_seq_eq (ineq h ! i) (isl_seq_cpy (ineq h ! i) (1 + n_dim s)) (1 + n_dim s)
     \<and> extend_candidate (wrap_facet lp right_inverse preimage) s i h ridge
           = (case isl_basic_set_alloc_inequality h of None \<Rightarrow> None | Some k \<Rightarrow> Some h)"
proof -
  let ?seed = "isl_seq_cpy (ineq h ! i) (1 + n_dim s)"
  have w: "wrap_facet lp right_inverse preimage s ?seed ridge = Some ?seed"
    using wrap_facet_unfold[of preimage s right_inverse ?seed ridge s' lp] pre unb by simp
  have e: "isl_seq_eq (ineq h ! i) ?seed (1 + n_dim s)" by (rule isl_seq_eq_cpy)
  have c: "extend_candidate (wrap_facet lp right_inverse preimage) s i h ridge
           = (case isl_basic_set_alloc_inequality h of None \<Rightarrow> None | Some k \<Rightarrow> Some h)"
  proof (cases "isl_basic_set_alloc_inequality h")
    case None
    then show ?thesis by (simp add: extend_candidate_def)
  next
    case (Some k)
    then have kl: "k = length (ineq h)"
      by (auto simp: isl_basic_set_alloc_inequality_def split: if_splits)
    have scan: "list_ex (\<lambda>f. isl_seq_eq ((ineq h @ [?seed]) ! f) ((ineq h @ [?seed]) ! k) (1 + n_dim s)) [0..<k]"
      unfolding list_ex_upt kl using i e by (auto simp: nth_append intro!: exI[where x=i])
    have free: "isl_basic_set_free_inequality (h\<lparr>ineq := ineq h @ [?seed]\<rparr>) 1 = h"
      by (simp add: isl_basic_set_free_inequality_def)
    show ?thesis
      using Some w scan free by (simp add: extend_candidate_def Let_def)
  qed
  show ?thesis using w e c by blast
qed

lemma satisfies_wrap_lp_c:
  "satisfies wrap_lp_c x \<longleftrightarrow> (\<exists>a c d. x = [a, 1, c, d, 0, 0] \<and> 0 \<le> a \<and> 0 \<le> d)"
  by (auto simp: satisfies_def wrap_lp_c_def row_val_def length_six)

lemma wrap_lp_c_no_minimum: "lp_no_minimum wrap_lp_c (wrap_objective 3 2)"
  unfolding lp_no_minimum_def wrap_objective_3_2
proof
  fix m :: rat
  show "\<exists>x. satisfies wrap_lp_c x \<and> dotp [0, 0, 1, 0, 0, 1] x < m"
    by (rule exI[where x="[0, 1, m - 1, 0, 0, 0]"]) (simp add: satisfies_wrap_lp_c)
qed

lemma preimage_c:
  "\<exists>s'. preimage_rows set_c (right_inverse_ex (wrap_matrix set_c [0, 1, 0] [0, 0, 1])) = Some s'
     \<and> wrap_constraints (Some s') = Some wrap_lp_c"
  by (simp add: wrap_constraints_def preimage_rows_def right_inverse_ex_def wrap_matrix_def
      set_c_def halfplane_def origin_2d_def wrap_lp_c_def row_times_mat_def wrap_sum_row_def
      wrap_dilation_row_def wrap_block_row_def isl_seq_clr_def isl_seq_cpy_def Let_def
      upt_rec numeral_2_eq_2 numeral_3_eq_3)

text \<open>
  Claim C10, witness: for the halfplane \<open>x\<^sub>1 \<ge> 0\<close> with the origin, the LP of the wrap
  of \<open>x\<^sub>1 \<ge> 0\<close> around \<open>x\<^sub>2 \<ge> 0\<close> has no minimum; the candidate is the facet itself and
  the hull keeps its single row.
\<close>

theorem unbounded_wrap_witness:
  "lp_no_minimum wrap_lp_c (wrap_objective 3 2)
   \<and> 0 < length (ineq hull_c)
   \<and> wrap_facet lp_unbounded right_inverse_ex preimage_rows set_c [0, 1, 0] [0, 0, 1]
        = Some [0, 1, 0]
   \<and> extend_candidate (wrap_facet lp_unbounded right_inverse_ex preimage_rows) set_c 0 hull_c
        [0, 0, 1] = Some hull_c"
proof -
  have i: "0 < length (ineq hull_c)" by (simp add: hull_c_def)
  have seed: "isl_seq_cpy (ineq hull_c ! 0) (1 + n_dim set_c) = [0, 1, 0]"
    by (simp add: hull_c_def set_c_def isl_seq_cpy_def)
  obtain s' where pre: "preimage_rows set_c (right_inverse_ex
       (wrap_matrix set_c (isl_seq_cpy (ineq hull_c ! 0) (1 + n_dim set_c)) [0, 0, 1])) = Some s'"
    and lpb: "wrap_constraints (Some s') = Some wrap_lp_c"
    unfolding seed using preimage_c by blast
  have unb: "wrap_lp_result lp_unbounded set_c s' = isl_lp_unbounded"
    using lpb by (simp add: wrap_lp_result_def lp_unbounded_def)
  have room: "isl_basic_set_alloc_inequality hull_c = Some 1"
    by (simp add: isl_basic_set_alloc_inequality_def hull_c_def)
  show ?thesis
    using unbounded_wrap_adds_nothing[where preimage = preimage_rows
        and right_inverse = right_inverse_ex and lp = lp_unbounded and s = set_c and h = hull_c
        and i = 0 and ridge = "[0, 0, 1]" and s' = s', OF i pre unb]
      wrap_lp_c_no_minimum i room
    unfolding seed by simp
qed

subsection \<open>The hull of a single polyhedron\<close>

lemma gauss_cols_no_eq: "gauss_cols v [] [] ineqs = ([], [], ineqs)"
  by (induction v) simp_all

lemma gauss_elim_no_eq: "eq bmap = [] \<Longrightarrow> gauss_elim bmap = bmap"
  by (simp add: gauss_elim_def gauss_cols_no_eq)

text \<open>
  Claim C8, as amended. On the fast paths \<open>isl_basic_map_convex_hull\<close> returns the
  result of the Gaussian elimination of its input with no further modification: when
  that result is flagged \<open>EMPTY\<close>, or flagged \<open>NO_REDUNDANT\<close>, or has at most one
  inequality, no tableau is built and no flag is set. The input itself is returned
  whenever the elimination leaves it as it is.
\<close>

theorem convex_hull_fast_paths:
  assumes "EMPTY \<in> flags (gauss b) \<or> NO_REDUNDANT \<in> flags (gauss b)
             \<or> length (ineq (gauss b)) \<le> 1"
  shows "isl_basic_map_convex_hull gauss tab_from_basic_map tab_detect_equalities
           tab_detect_redundant update_from_tab (Some b) = Some (gauss b)
     \<and> (gauss b = b \<longrightarrow>
          isl_basic_map_convex_hull gauss tab_from_basic_map tab_detect_equalities
            tab_detect_redundant update_from_tab (Some b) = Some b)"
  using assms by (auto simp: isl_basic_map_convex_hull_def Let_def)

text \<open>
  Claim C8, witness: the halfline \<open>x \<ge> 0\<close> has one inequality and no equality; the
  elimination leaves it as it is and it is returned unchanged.
\<close>

theorem convex_hull_fast_paths_witness:
  "(EMPTY \<in> flags (gauss_elim (halfline 0 1)) \<or> NO_REDUNDANT \<in> flags (gauss_elim (halfline 0 1))
      \<or> length (ineq (gauss_elim (halfline 0 1))) \<le> 1)
   \<and> gauss_elim (halfline 0 1) = halfline 0 1
   \<and> isl_basic_map_convex_hull gauss_elim (\<lambda>b. b) (\<lambda>t. t) (\<lambda>t. t) (\<lambda>b t. t)
        (Some (halfline 0 1)) = Some (halfline 0 1)"
proof -
  have g: "gauss_elim (halfline 0 1) = halfline 0 1"
    by (rule gauss_elim_no_eq) (simp add: halfline_def)
  have f: "EMPTY \<in> flags (gauss_elim (halfline 0 1)) \<or> NO_REDUNDANT \<in> flags (gauss_elim (halfline 0 1))
      \<or> length (ineq (gauss_elim (halfline 0 1))) \<le> 1"
    unfolding g by (simp add: halfline_def)
  show ?thesis
    using convex_hull_fast_paths[of gauss_elim "halfline 0 1", OF f] f g by simp
qed

text \<open>
  Claim C8 as stated fails: the ray \<open>y = 0\<close>, \<open>x + y \<ge> 0\<close> has one inequality and no
  flag, and it comes back with the inequality \<open>x \<ge> 0\<close>: the elimination of \<open>y\<close> ran
  before the tests.
\<close>

theorem convex_hull_fast_paths_counterexample:
  "length (ineq ray_xy) \<le> 1
   \<and> isl_basic_map_convex_hull gauss_elim (\<lambda>b. b) (\<lambda>t. t) (\<lambda>t. t) (\<lambda>b t. t) (Some ray_xy)
       = Some (ray_xy\<lparr>ineq := [[0, 1, 0]]\<rparr>)
   \<and> ray_xy\<lparr>ineq := [[0, 1, 0]]\<rparr> \<noteq> ray_xy"
proof -
  have g: "gauss_elim ray_xy = ray_xy\<lparr>ineq := [[0, 1, 0]]\<rparr>"
    by (simp add: gauss_elim_def ray_xy_def elim_row_def numeral_2_eq_2)
  have "isl_basic_map_convex_hull gauss_elim (\<lambda>b. b) (\<lambda>t. t) (\<lambda>t. t) (\<lambda>b t. t) (Some ray_xy)
       = Some (ray_xy\<lparr>ineq := [[0, 1, 0]]\<rparr>)"
    unfolding isl_basic_map_convex_hull_def by (simp add: g Let_def)
  moreover have "ray_xy\<lparr>ineq := [[0, 1, 0]]\<rparr> \<noteq> ray_xy" by (simp add: ray_xy_def)
  moreover have "length (ineq ray_xy) \<le> 1" by (simp add: ray_xy_def)
  ultimately show ?thesis by blast
qed

end
